theory Spec2Isabelle
  imports Main "HOL-Library.Word" "HOL-Library.Multiset"
begin

section \<open>The forEach kernel dispatcher of the RenderScript support driver\<close>

text \<open>
  A shallow embedding of \<^verbatim>\<open>rsdScriptInvokeForEach\<close> and of its two worker
  callbacks \<^verbatim>\<open>wc_xy\<close> and \<^verbatim>\<open>wc_x\<close>
  (\<^verbatim>\<open>renderscript/v8/rs_support/driver/rsdBcc.cpp\<close>).

  Every \<^verbatim>\<open>uint32_t\<close> of the source is a 32-bit word, so that sums and products wrap
  as they do in C. Pointers are byte addresses, modelled as natural numbers: adding a
  32-bit offset to a pointer adds its unsigned value. A call of the kernel function
  pointer \<^verbatim>\<open>bare_fn\<close> is recorded as an event carrying the two pointers and the four
  coordinates it is given; the opaque parameters \<^verbatim>\<open>usr\<close>, \<^verbatim>\<open>usrLen\<close> are the same in
  every call and are left out. The thread-local script pointer (\<^verbatim>\<open>setTLS\<close>) is saved
  and restored around the call and read by nothing here; it is left out as well.
\<close>

subsection \<open>Data\<close>

text \<open>A \<^verbatim>\<open>uint32_t\<close>, and a byte address.\<close>

type_synonym u32 = "32 word"

type_synonym addr = nat

text \<open>What the dispatcher reads of an allocation: the dimensions of its type, its element
  size, and the base pointer and row stride of its first level of detail.\<close>

record Allocation =
  getDimX :: u32
  getDimY :: u32
  getDimZ :: u32
  getElementSizeBytes :: u32
  lod0_mallocPtr :: addr
  lod0_stride :: u32

text \<open>The clip descriptor. Its \<^verbatim>\<open>strategy\<close> field is never read by the dispatcher.\<close>

record RsScriptCall =
  sc_xStart :: u32
  sc_xEnd :: u32
  sc_yStart :: u32
  sc_yEnd :: u32
  sc_zStart :: u32
  sc_zEnd :: u32
  sc_arrayStart :: u32
  sc_arrayEnd :: u32

text \<open>The launch structure \<^verbatim>\<open>MTLaunchStruct\<close>, shared by the dispatcher and the
  workers. The fields \<^verbatim>\<open>rsc\<close>, \<^verbatim>\<open>script\<close>, \<^verbatim>\<open>kernel\<close>, \<^verbatim>\<open>sig\<close>, \<^verbatim>\<open>ain\<close>, \<^verbatim>\<open>aout\<close>,
  \<^verbatim>\<open>usr\<close> and \<^verbatim>\<open>usrLen\<close> are set once and decide no branch; they are left out. The
  counter \<^verbatim>\<open>mSliceNum\<close> is a \<^verbatim>\<open>volatile int\<close> whose value is cast to \<^verbatim>\<open>uint32_t\<close>
  wherever it is read.\<close>

record MTLaunchStruct =
  mSliceSize :: u32
  mSliceNum :: u32
  ptrIn :: addr
  eStrideIn :: u32
  ptrOut :: addr
  eStrideOut :: u32
  yStrideIn :: u32
  yStrideOut :: u32
  xStart :: u32
  xEnd :: u32
  yStart :: u32
  yEnd :: u32
  zStart :: u32
  zEnd :: u32
  arrayStart :: u32
  arrayEnd :: u32
  dimX :: u32
  dimY :: u32
  dimZ :: u32
  dimArray :: u32

text \<open>The driver state the dispatcher reads and writes: the size of the worker pool
  (\<^verbatim>\<open>dc->mWorkers.mCount\<close>) and the re-entrancy flag (\<^verbatim>\<open>dc->mInForEach\<close>).\<close>

record RsdHal =
  mCount :: u32
  mInForEach :: bool

text \<open>What the dispatcher reads of the script: \<^verbatim>\<open>s->mHal.info.isThreadable\<close>.\<close>

record Script =
  isThreadable :: bool

text \<open>The one error code the dispatcher sets.\<close>

datatype RsError = RS_ERROR_BAD_SCRIPT

text \<open>One invocation \<^verbatim>\<open>bare_fn(p.in, p.out, p.usr, x, y, z, ar)\<close>.\<close>

datatype kcall = KCall (p_in: addr) (p_out: addr) (kx: u32) (ky: u32) (kz: u32) (kar: u32)

text \<open>The callback handed to \<^verbatim>\<open>rsdLaunchThreads\<close>.\<close>

datatype WorkerCallback_t = WC_XY | WC_X

text \<open>What a dispatch does that can be seen from outside, in order: writes of
  \<^verbatim>\<open>dc->mInForEach\<close>, the call of \<^verbatim>\<open>rsdLaunchThreads\<close> with its callback and launch
  structure, and the kernel invocations.\<close>

datatype event =
  InForEach bool
  | LaunchThreads WorkerCallback_t MTLaunchStruct
  | Kernel kcall

text \<open>Unsigned division by zero is undefined in C; it is a fault of the model.\<close>

datatype fault = DivideByZero

text \<open>What a call that returns leaves: the driver state, the error set on the context
  (if any) with its message, and the events in order.\<close>

record Outcome =
  o_hal :: RsdHal
  o_error :: "(RsError \<times> string) option"
  o_trace :: "event list"

text \<open>The kernel invocations of a trace, and its thread launches.\<close>

fun kernel_calls :: "event list \<Rightarrow> kcall list" where
  "kernel_calls [] = []"
| "kernel_calls (Kernel c # es) = c # kernel_calls es"
| "kernel_calls (_ # es) = kernel_calls es"

fun launches :: "event list \<Rightarrow> (WorkerCallback_t \<times> MTLaunchStruct) list" where
  "launches [] = []"
| "launches (LaunchThreads cb m # es) = (cb, m) # launches es"
| "launches (_ # es) = launches es"

text \<open>The coordinates a kernel invocation is given.\<close>

definition coords :: "kcall \<Rightarrow> u32 \<times> u32 \<times> u32 \<times> u32" where
  "coords c = (kx c, ky c, kz c, kar c)"

subsection \<open>Loops over 32-bit counters\<close>

text \<open>A counter below a bound does not wrap when incremented.\<close>

lemma u32_less_Suc: "(i::u32) < n \<Longrightarrow> unat (i + 1) = Suc (unat i)"
proof -
  assume "i < n"
  then have "unat i < unat n" by (simp add: word_less_nat_alt)
  moreover have "unat n < 2 ^ 32" using unsigned_less [of n] by simp
  ultimately have "unat i + 1 < 2 ^ 32" by simp
  then show ?thesis by (simp add: unat_word_ariths)
qed

text \<open>\<^verbatim>\<open>for (i = a; i < n; i++) body(i)\<close> over \<^verbatim>\<open>uint32_t\<close>, collecting the events of
  the bodies.\<close>

function for_u32 :: "u32 \<Rightarrow> u32 \<Rightarrow> (u32 \<Rightarrow> 'a list) \<Rightarrow> 'a list" where
  "for_u32 i n body = (if i < n then body i @ for_u32 (i + 1) n body else [])"
  by pat_completeness auto
termination
  by (relation "measure (\<lambda>(i, n, body). unat n - unat i)")
     (auto simp: u32_less_Suc word_less_nat_alt)

declare for_u32.simps [simp del]

text \<open>The innermost loop, the same in the three paths:
  \<^verbatim>\<open>for (x = xs; x < xe; ++x) { bare_fn(p.in, p.out, usr, x, y, z, ar);
  p.in += eStrideIn; p.out += eStrideOut; }\<close>.\<close>

function x_loop :: "u32 \<Rightarrow> u32 \<Rightarrow> u32 \<Rightarrow> u32 \<Rightarrow> u32 \<Rightarrow> u32 \<Rightarrow> u32 \<Rightarrow> addr \<Rightarrow> addr \<Rightarrow> kcall list" where
  "x_loop eIn eOut y z ar x xe pin pout =
     (if x < xe
      then KCall pin pout x y z ar #
           x_loop eIn eOut y z ar (x + 1) xe (pin + unat eIn) (pout + unat eOut)
      else [])"
  by pat_completeness auto
termination
  by (relation "measure (\<lambda>(eIn, eOut, y, z, ar, x, xe, pin, pout). unat xe - unat x)")
     (auto simp: u32_less_Suc word_less_nat_alt)

declare x_loop.simps [simp del]

subsection \<open>The worker callbacks\<close>

text \<open>The head of the \<^verbatim>\<open>while (1)\<close> loop of both callbacks, for the counter value
  \<open>sl\<close> that \<^verbatim>\<open>android_atomic_inc\<close> returned: the bounds of the claimed slice.\<close>

definition claimNextSlice :: "u32 \<Rightarrow> u32 \<Rightarrow> u32 \<Rightarrow> u32 \<Rightarrow> u32 \<times> u32" where
  "claimNextSlice sl sliceSize axisStart axisEnd =
     (let s = axisStart + sl * sliceSize;
          e = s + sliceSize;
          e = min e axisEnd
      in (s, e))"

text \<open>The two nested loops of \<^verbatim>\<open>wc_xy\<close> over a claimed slice of rows: each row starts
  at \<^verbatim>\<open>ptr + yStride * y\<close> and runs over \<^verbatim>\<open>mtls->xStart\<close> to \<^verbatim>\<open>mtls->xEnd\<close>, with
  \<open>z = 0\<close> and \<open>ar = 0\<close>.\<close>

definition wc_xy_body :: "MTLaunchStruct \<Rightarrow> u32 \<Rightarrow> u32 \<Rightarrow> kcall list" where
  "wc_xy_body mtls yStart' yEnd' =
     for_u32 yStart' yEnd' (\<lambda>y.
       x_loop (eStrideIn mtls) (eStrideOut mtls) y 0 0 (xStart mtls) (xEnd mtls)
         (ptrIn mtls + unat (yStrideIn mtls * y))
         (ptrOut mtls + unat (yStrideOut mtls * y)))"

text \<open>The loop of \<^verbatim>\<open>wc_x\<close> over a claimed slice of columns. The pointers start at the
  slice (\<^verbatim>\<open>ptr + eStride * xStart\<close>, the local \<^verbatim>\<open>xStart\<close>), and the loop runs from
  \<^verbatim>\<open>mtls->xStart\<close> to \<^verbatim>\<open>mtls->xEnd\<close>, not over the slice: so the source has it. The
  local \<^verbatim>\<open>xEnd\<close> is used by the emptiness test only.\<close>

definition wc_x_body :: "MTLaunchStruct \<Rightarrow> u32 \<Rightarrow> u32 \<Rightarrow> kcall list" where
  "wc_x_body mtls xStart' xEnd' =
     x_loop (eStrideIn mtls) (eStrideOut mtls) 0 0 0 (xStart mtls) (xEnd mtls)
       (ptrIn mtls + unat (eStrideIn mtls * xStart'))
       (ptrOut mtls + unat (eStrideOut mtls * xStart'))"

text \<open>One pass through the body of \<^verbatim>\<open>while (1)\<close> in \<^verbatim>\<open>wc_xy\<close>: the counter is
  incremented, and the result is \<open>None\<close> when the callback returns, or the kernel
  invocations of the claimed rows.\<close>

definition wc_xy_claim :: "MTLaunchStruct \<Rightarrow> kcall list option \<times> MTLaunchStruct" where
  "wc_xy_claim mtls =
     (let sl = mSliceNum mtls;
          mtls' = mtls\<lparr>mSliceNum := sl + 1\<rparr>;
          (yStart', yEnd') = claimNextSlice sl (mSliceSize mtls) (yStart mtls) (yEnd mtls)
      in if yEnd' \<le> yStart' then (None, mtls')
         else (Some (wc_xy_body mtls yStart' yEnd'), mtls'))"

text \<open>One pass through the body of \<^verbatim>\<open>while (1)\<close> in \<^verbatim>\<open>wc_x\<close>.\<close>

definition wc_x_claim :: "MTLaunchStruct \<Rightarrow> kcall list option \<times> MTLaunchStruct" where
  "wc_x_claim mtls =
     (let sl = mSliceNum mtls;
          mtls' = mtls\<lparr>mSliceNum := sl + 1\<rparr>;
          (xStart', xEnd') = claimNextSlice sl (mSliceSize mtls) (xStart mtls) (xEnd mtls)
      in if xEnd' \<le> xStart' then (None, mtls')
         else (Some (wc_x_body mtls xStart' xEnd'), mtls'))"

text \<open>A non-empty slice starts strictly below the start of the next one, as natural
  numbers: this is what ends the \<^verbatim>\<open>while (1)\<close> loops.\<close>

lemma claim_nonempty_advance:
  assumes "claimNextSlice sl sz a e = (s', e')" and "\<not> e' \<le> s'"
  shows "unat (a + sl * sz) < unat (a + (sl + 1) * sz)"
proof -
  from assms have s: "s' = a + sl * sz" and e: "e' = min (s' + sz) e"
    by (auto simp: claimNextSlice_def Let_def)
  from assms(2) e have "s' < s' + sz" by (simp add: min_def split: if_splits)
  then have "unat s' < unat (s' + sz)" by (simp add: word_less_nat_alt)
  moreover have eq: "a + (sl + 1) * sz = s' + sz" by (simp add: s algebra_simps)
  ultimately show ?thesis by (simp only: eq s [symmetric])
qed

text \<open>The callback \<^verbatim>\<open>wc_xy\<close> run by one thread alone: the \<^verbatim>\<open>while (1)\<close> loop, until
  a claimed slice is empty. It returns the kernel invocations in order and the launch
  structure with its counter advanced.\<close>

function wc_xy :: "MTLaunchStruct \<Rightarrow> kcall list \<times> MTLaunchStruct" where
  "wc_xy mtls =
     (case wc_xy_claim mtls of
        (None, mtls') \<Rightarrow> ([], mtls')
      | (Some cs, mtls') \<Rightarrow> (case wc_xy mtls' of (cs', mtls'') \<Rightarrow> (cs @ cs', mtls'')))"
  by pat_completeness auto
termination
proof (relation "measure (\<lambda>m. 2 ^ 32 - unat (yStart m + mSliceNum m * mSliceSize m))")
  show "wf (measure (\<lambda>m. 2 ^ 32 - unat (yStart m + mSliceNum m * mSliceSize m)))" by simp
next
  fix mtls :: MTLaunchStruct and x mtls' cs
  assume a: "(x, mtls') = wc_xy_claim mtls" "x = Some cs"
  obtain s' e' where
    c: "claimNextSlice (mSliceNum mtls) (mSliceSize mtls) (yStart mtls) (yEnd mtls) = (s', e')"
    by (cases "claimNextSlice (mSliceNum mtls) (mSliceSize mtls) (yStart mtls) (yEnd mtls)")
  from a c have ne: "\<not> e' \<le> s'" and m': "mtls' = mtls\<lparr>mSliceNum := mSliceNum mtls + 1\<rparr>"
    by (auto simp: wc_xy_claim_def Let_def split: if_splits)
  have "unat (yStart mtls + (mSliceNum mtls + 1) * mSliceSize mtls) < 2 ^ 32"
    using unsigned_less [of "yStart mtls + (mSliceNum mtls + 1) * mSliceSize mtls"] by simp
  with claim_nonempty_advance [OF c ne] m'
  show "(mtls', mtls) \<in> measure (\<lambda>m. 2 ^ 32 - unat (yStart m + mSliceNum m * mSliceSize m))"
    by simp
qed

declare wc_xy.simps [simp del]

text \<open>The callback \<^verbatim>\<open>wc_x\<close> run by one thread alone.\<close>

function wc_x :: "MTLaunchStruct \<Rightarrow> kcall list \<times> MTLaunchStruct" where
  "wc_x mtls =
     (case wc_x_claim mtls of
        (None, mtls') \<Rightarrow> ([], mtls')
      | (Some cs, mtls') \<Rightarrow> (case wc_x mtls' of (cs', mtls'') \<Rightarrow> (cs @ cs', mtls'')))"
  by pat_completeness auto
termination
proof (relation "measure (\<lambda>m. 2 ^ 32 - unat (xStart m + mSliceNum m * mSliceSize m))")
  show "wf (measure (\<lambda>m. 2 ^ 32 - unat (xStart m + mSliceNum m * mSliceSize m)))" by simp
next
  fix mtls :: MTLaunchStruct and x mtls' cs
  assume a: "(x, mtls') = wc_x_claim mtls" "x = Some cs"
  obtain s' e' where
    c: "claimNextSlice (mSliceNum mtls) (mSliceSize mtls) (xStart mtls) (xEnd mtls) = (s', e')"
    by (cases "claimNextSlice (mSliceNum mtls) (mSliceSize mtls) (xStart mtls) (xEnd mtls)")
  from a c have ne: "\<not> e' \<le> s'" and m': "mtls' = mtls\<lparr>mSliceNum := mSliceNum mtls + 1\<rparr>"
    by (auto simp: wc_x_claim_def Let_def split: if_splits)
  have "unat (xStart mtls + (mSliceNum mtls + 1) * mSliceSize mtls) < 2 ^ 32"
    using unsigned_less [of "xStart mtls + (mSliceNum mtls + 1) * mSliceSize mtls"] by simp
  with claim_nonempty_advance [OF c ne] m'
  show "(mtls', mtls) \<in> measure (\<lambda>m. 2 ^ 32 - unat (xStart m + mSliceNum m * mSliceSize m))"
    by simp
qed

declare wc_x.simps [simp del]

text \<open>The two callbacks by their tag.\<close>

definition wc_claim :: "WorkerCallback_t \<Rightarrow> MTLaunchStruct \<Rightarrow> kcall list option \<times> MTLaunchStruct" where
  "wc_claim cb = (case cb of WC_XY \<Rightarrow> wc_xy_claim | WC_X \<Rightarrow> wc_x_claim)"

definition wc_run :: "WorkerCallback_t \<Rightarrow> MTLaunchStruct \<Rightarrow> kcall list \<times> MTLaunchStruct" where
  "wc_run cb = (case cb of WC_XY \<Rightarrow> wc_xy | WC_X \<Rightarrow> wc_x)"

subsection \<open>The worker pool\<close>

text \<open>A worker is inside the loop of its callback, with the kernel invocations that are
  left of the slice it claimed, or it has returned.\<close>

datatype wstate = Busy "kcall list" | Returned

text \<open>The state of a launch: the workers, the shared launch structure, and the kernel
  invocations so far.\<close>

type_synonym pool = "wstate list \<times> MTLaunchStruct \<times> kcall list"

text \<open>One step of worker \<open>w\<close>: the next kernel invocation of its slice, or, when the
  slice is done, the atomic claim of the next one (and the return when that is empty).
  The launch structure is shared by the workers; only its counter changes.\<close>

definition pool_step :: "WorkerCallback_t \<Rightarrow> nat \<Rightarrow> pool \<Rightarrow> pool" where
  "pool_step cb w p =
     (case p of (ws, mtls, tr) \<Rightarrow>
        if w < length ws then
          (case ws ! w of
             Returned \<Rightarrow> p
           | Busy (c # cs) \<Rightarrow> (ws[w := Busy cs], mtls, tr @ [c])
           | Busy [] \<Rightarrow>
               (case wc_claim cb mtls of
                  (None, mtls') \<Rightarrow> (ws[w := Returned], mtls', tr)
                | (Some cs, mtls') \<Rightarrow> (ws[w := Busy cs], mtls', tr)))
        else p)"

text \<open>Worker \<open>w\<close> runs undisturbed until it returns.\<close>

definition pool_finish :: "WorkerCallback_t \<Rightarrow> nat \<Rightarrow> pool \<Rightarrow> pool" where
  "pool_finish cb w p =
     (case p of (ws, mtls, tr) \<Rightarrow>
        if w < length ws then
          (case ws ! w of
             Returned \<Rightarrow> p
           | Busy cs \<Rightarrow>
               (case wc_run cb mtls of (cs', mtls') \<Rightarrow> (ws[w := Returned], mtls', tr @ cs @ cs')))
        else p)"

text \<open>Modelled from the spec: \<^verbatim>\<open>rsdLaunchThreads\<close>, which is called here and defined in
  a file that is not among the sources. The spec gives it as the one primitive of the
  worker pool: run the given function with the given context object on every worker,
  and block until all have returned. The \<open>n\<close> workers all start in the loop of the
  callback. The schedule \<open>sched\<close> names, step by step, the worker that moves next, so
  that every interleaving of kernel invocations and atomic claims is the run of some
  schedule; when the schedule ends, the workers that have not returned run to their
  return one after the other. The result is the kernel invocations in the order they
  happened, and the launch structure as the workers left it.\<close>

definition rsdLaunchThreads ::
  "WorkerCallback_t \<Rightarrow> nat \<Rightarrow> nat list \<Rightarrow> MTLaunchStruct \<Rightarrow> kcall list \<times> MTLaunchStruct" where
  "rsdLaunchThreads cb n sched mtls =
     (case fold (pool_finish cb) [0..<n]
             (fold (pool_step cb) sched (replicate n (Busy []), mtls, [])) of
        (ws, mtls', tr) \<Rightarrow> (tr, mtls'))"

subsection \<open>The dispatcher\<close>

text \<open>\<^verbatim>\<open>memset(&mtls, 0, sizeof(mtls))\<close>.\<close>

definition mtls_zero :: MTLaunchStruct where
  "mtls_zero =
     \<lparr>mSliceSize = 0, mSliceNum = 0, ptrIn = 0, eStrideIn = 0, ptrOut = 0, eStrideOut = 0,
      yStrideIn = 0, yStrideOut = 0, xStart = 0, xEnd = 0, yStart = 0, yEnd = 0,
      zStart = 0, zEnd = 0, arrayStart = 0, arrayEnd = 0,
      dimX = 0, dimY = 0, dimZ = 0, dimArray = 0\<rparr>"

text \<open>The dimensions, from the input allocation when there is one, else from the output
  allocation; \<open>None\<close> is the branch that sets the error and returns. The array dimension
  is not read (its assignment is commented out in the source).\<close>

definition launch_dims ::
  "Allocation option \<Rightarrow> Allocation option \<Rightarrow> MTLaunchStruct \<Rightarrow> MTLaunchStruct option" where
  "launch_dims ain aout mtls =
     (case ain of
        Some a \<Rightarrow> Some (mtls\<lparr>dimX := getDimX a, dimY := getDimY a, dimZ := getDimZ a\<rparr>)
      | None \<Rightarrow>
          (case aout of
             Some a \<Rightarrow> Some (mtls\<lparr>dimX := getDimX a, dimY := getDimY a, dimZ := getDimZ a\<rparr>)
           | None \<Rightarrow> None))"

text \<open>The X range; \<open>None\<close> is the early \<^verbatim>\<open>return\<close>. The three \<^verbatim>\<open>rsAssert\<close> lines
  before the clamps are diagnostics: the macro is defined outside the sources, and the
  clamps and the test that follow handle the very inputs the assertions reject, so an
  assertion that fails does not end the call.\<close>

definition clip_x :: "RsScriptCall option \<Rightarrow> MTLaunchStruct \<Rightarrow> MTLaunchStruct option" where
  "clip_x sc mtls =
     (case sc of
        None \<Rightarrow> Some (mtls\<lparr>xEnd := dimX mtls\<rparr>)
      | Some c \<Rightarrow>
          if sc_xEnd c = 0 then Some (mtls\<lparr>xEnd := dimX mtls\<rparr>)
          else
            (let m = mtls\<lparr>xStart := min (dimX mtls) (sc_xStart c),
                           xEnd := min (dimX mtls) (sc_xEnd c)\<rparr>
             in if xStart m \<ge> xEnd m then None else Some m))"

text \<open>The Y range, in the same way.\<close>

definition clip_y :: "RsScriptCall option \<Rightarrow> MTLaunchStruct \<Rightarrow> MTLaunchStruct option" where
  "clip_y sc mtls =
     (case sc of
        None \<Rightarrow> Some (mtls\<lparr>yEnd := dimY mtls\<rparr>)
      | Some c \<Rightarrow>
          if sc_yEnd c = 0 then Some (mtls\<lparr>yEnd := dimY mtls\<rparr>)
          else
            (let m = mtls\<lparr>yStart := min (dimY mtls) (sc_yStart c),
                           yEnd := min (dimY mtls) (sc_yEnd c)\<rparr>
             in if yStart m \<ge> yEnd m then None else Some m))"

text \<open>The four \<^verbatim>\<open>rsMax((uint32_t)1, ...)\<close> lines.\<close>

definition floor_ends :: "MTLaunchStruct \<Rightarrow> MTLaunchStruct" where
  "floor_ends mtls =
     mtls\<lparr>xEnd := max 1 (xEnd mtls), yEnd := max 1 (yEnd mtls),
          zEnd := max 1 (zEnd mtls), arrayEnd := max 1 (arrayEnd mtls)\<rparr>"

text \<open>The slice size and counter, and the pointers and strides of the two allocations;
  an absent allocation leaves a null pointer and an element stride of 0.\<close>

definition bind_buffers ::
  "Allocation option \<Rightarrow> Allocation option \<Rightarrow> MTLaunchStruct \<Rightarrow> MTLaunchStruct" where
  "bind_buffers ain aout mtls =
     (let m = mtls\<lparr>mSliceSize := 10, mSliceNum := 0\<rparr>;
          m = m\<lparr>ptrIn := 0, eStrideIn := 0\<rparr>;
          m = (case ain of
                 None \<Rightarrow> m
               | Some a \<Rightarrow> m\<lparr>ptrIn := lod0_mallocPtr a, eStrideIn := getElementSizeBytes a,
                              yStrideIn := lod0_stride a\<rparr>);
          m = m\<lparr>ptrOut := 0, eStrideOut := 0\<rparr>
      in (case aout of
            None \<Rightarrow> m
          | Some a \<Rightarrow> m\<lparr>ptrOut := lod0_mallocPtr a, eStrideOut := getElementSizeBytes a,
                         yStrideOut := lod0_stride a\<rparr>))"

text \<open>The launch structure as it stands before the choice between the parallel and the
  sequential path; \<open>None\<close> when the call has returned before.\<close>

definition resolve_launch ::
  "Allocation option \<Rightarrow> Allocation option \<Rightarrow> RsScriptCall option \<Rightarrow> MTLaunchStruct option" where
  "resolve_launch ain aout sc =
     (case launch_dims ain aout mtls_zero of
        None \<Rightarrow> None
      | Some m1 \<Rightarrow>
          (case clip_x sc m1 of
             None \<Rightarrow> None
           | Some m2 \<Rightarrow>
               (case clip_y sc m2 of
                  None \<Rightarrow> None
                | Some m3 \<Rightarrow> Some (bind_buffers ain aout (floor_ends m3)))))"

text \<open>\<^verbatim>\<open>mSliceSize = dim / (mCount * 4); if (mSliceSize < 1) mSliceSize = 1;\<close>, the
  product being a 32-bit one.\<close>

definition computeSliceSize :: "u32 \<Rightarrow> u32 \<Rightarrow> fault + u32" where
  "computeSliceSize axisExtent workerCount =
     (if workerCount * 4 = 0 then Inl DivideByZero
      else (let s = axisExtent div (workerCount * 4) in Inr (if s < 1 then 1 else s)))"

text \<open>The sequential path: the four nested loops.\<close>

definition sequential_loops :: "MTLaunchStruct \<Rightarrow> kcall list" where
  "sequential_loops mtls =
     for_u32 (arrayStart mtls) (arrayEnd mtls) (\<lambda>ar.
       for_u32 (zStart mtls) (zEnd mtls) (\<lambda>z.
         for_u32 (yStart mtls) (yEnd mtls) (\<lambda>y.
           let offset = dimX mtls * dimY mtls * dimZ mtls * ar
                      + dimX mtls * dimY mtls * z
                      + dimX mtls * y
           in x_loop (eStrideIn mtls) (eStrideOut mtls) y z ar (xStart mtls) (xEnd mtls)
                (ptrIn mtls + unat (eStrideIn mtls * offset))
                (ptrOut mtls + unat (eStrideOut mtls * offset)))))"

text \<open>The parallel path for the callback \<open>cb\<close>, slicing an axis of dimension \<open>d\<close>.\<close>

definition parallel_launch ::
  "RsdHal \<Rightarrow> WorkerCallback_t \<Rightarrow> u32 \<Rightarrow> nat list \<Rightarrow> MTLaunchStruct \<Rightarrow> fault + Outcome" where
  "parallel_launch dc cb d sched mtls =
     (case computeSliceSize d (mCount dc) of
        Inl f \<Rightarrow> Inl f
      | Inr sz \<Rightarrow>
          (let m = mtls\<lparr>mSliceSize := sz\<rparr> in
           Inr \<lparr>o_hal = dc\<lparr>mInForEach := False\<rparr>, o_error = None,
                o_trace = InForEach True # LaunchThreads cb m #
                          map Kernel (fst (rsdLaunchThreads cb (unat (mCount dc)) sched m)) @
                          [InForEach False]\<rparr>))"

text \<open>\<^verbatim>\<open>rsdScriptInvokeForEach\<close>. The schedule \<open>sched\<close> is the interleaving of the
  workers, should the call go parallel.\<close>

definition rsdScriptInvokeForEach ::
  "RsdHal \<Rightarrow> Script \<Rightarrow> Allocation option \<Rightarrow> Allocation option \<Rightarrow> RsScriptCall option \<Rightarrow>
   nat list \<Rightarrow> fault + Outcome" where
  "rsdScriptInvokeForEach dc s ain aout sc sched =
     (case launch_dims ain aout mtls_zero of
        None \<Rightarrow>
          Inr \<lparr>o_hal = dc,
               o_error = Some (RS_ERROR_BAD_SCRIPT, ''rsForEach called with null allocations''),
               o_trace = []\<rparr>
      | Some _ \<Rightarrow>
          (case resolve_launch ain aout sc of
             None \<Rightarrow> Inr \<lparr>o_hal = dc, o_error = None, o_trace = []\<rparr>
           | Some mtls \<Rightarrow>
               if mCount dc > 1 \<and> isThreadable s \<and> \<not> mInForEach dc then
                 (if dimY mtls > 1 then parallel_launch dc WC_XY (dimY mtls) sched mtls
                  else parallel_launch dc WC_X (dimX mtls) sched mtls)
               else Inr \<lparr>o_hal = dc, o_error = None,
                         o_trace = map Kernel (sequential_loops mtls)\<rparr>))"

section \<open>The vocabulary of the properties\<close>

subsection \<open>What a dispatch is seen to do\<close>

text \<open>The kernel invocations of a dispatch, in the order they happened; none when the
  model faults.\<close>

definition invocations :: "fault + Outcome \<Rightarrow> kcall list" where
  "invocations r = (case r of Inl f \<Rightarrow> [] | Inr out \<Rightarrow> kernel_calls (o_trace out))"

text \<open>The coordinate tuples \<open>(x, y, z, ar)\<close> at which a dispatch invokes the kernel, in
  order and with repetitions.\<close>

definition visited :: "fault + Outcome \<Rightarrow> (u32 \<times> u32 \<times> u32 \<times> u32) list" where
  "visited r = (case r of Inl f \<Rightarrow> [] | Inr out \<Rightarrow> map coords (kernel_calls (o_trace out)))"

text \<open>The callback and the slice size of every thread launch of a dispatch.\<close>

definition slice_sizes :: "fault + Outcome \<Rightarrow> (WorkerCallback_t \<times> u32) list" where
  "slice_sizes r = (case r of Inl f \<Rightarrow> [] | Inr out \<Rightarrow> map (\<lambda>(cb, m). (cb, mSliceSize m)) (launches (o_trace out)))"

text \<open>The four ranges of a launch structure, as (start, end) pairs for X, Y, Z and
  array.\<close>

definition resolved_ranges ::
  "MTLaunchStruct \<Rightarrow> (u32 \<times> u32) \<times> (u32 \<times> u32) \<times> (u32 \<times> u32) \<times> (u32 \<times> u32)" where
  "resolved_ranges m =
     ((xStart m, xEnd m), (yStart m, yEnd m), (zStart m, zEnd m), (arrayStart m, arrayEnd m))"

subsection \<open>Clips\<close>

text \<open>No explicit clip on X (on Y): no descriptor, or one whose end bound on the axis
  is 0.\<close>

definition no_clip_x :: "RsScriptCall option \<Rightarrow> bool" where
  "no_clip_x sc = (case sc of None \<Rightarrow> True | Some c \<Rightarrow> sc_xEnd c = 0)"

definition no_clip_y :: "RsScriptCall option \<Rightarrow> bool" where
  "no_clip_y sc = (case sc of None \<Rightarrow> True | Some c \<Rightarrow> sc_yEnd c = 0)"

subsection \<open>Iteration domains\<close>

text \<open>The values a 32-bit counter takes from \<open>a\<close> up to, not including, \<open>b\<close>.\<close>

definition u32_range :: "u32 \<Rightarrow> u32 \<Rightarrow> u32 list" where
  "u32_range a b = map of_nat [unat a..<unat b]"

text \<open>The tuples of a domain in loop order: array outermost, then z, then y, then x.\<close>

definition domain_tuples ::
  "u32 list \<Rightarrow> u32 list \<Rightarrow> u32 list \<Rightarrow> u32 list \<Rightarrow> (u32 \<times> u32 \<times> u32 \<times> u32) list" where
  "domain_tuples xs ys zs ars =
     map (\<lambda>(ar, z, y, x). (x, y, z, ar)) (List.product ars (List.product zs (List.product ys xs)))"

text \<open>The clamped domain of a launch structure,
  \<open>[xStart, xEnd) \<times> [yStart, yEnd) \<times> [zStart, zEnd) \<times> [arrayStart, arrayEnd)\<close>, in loop
  order.\<close>

definition resolved_domain :: "MTLaunchStruct \<Rightarrow> (u32 \<times> u32 \<times> u32 \<times> u32) list" where
  "resolved_domain m =
     domain_tuples (u32_range (xStart m) (xEnd m)) (u32_range (yStart m) (yEnd m))
       (u32_range (zStart m) (zEnd m)) (u32_range (arrayStart m) (arrayEnd m))"

subsection \<open>Slices\<close>

text \<open>The slices a callback claims when it runs from the counter value \<open>sl\<close> on: the loop
  head of \<^verbatim>\<open>wc_xy\<close> and \<^verbatim>\<open>wc_x\<close> without the kernel invocations. It stops at the first
  empty slice.\<close>

function slices_from :: "u32 \<Rightarrow> u32 \<Rightarrow> u32 \<Rightarrow> u32 \<Rightarrow> (u32 \<times> u32) list" where
  "slices_from sl sz a e =
     (case claimNextSlice sl sz a e of
        (s', e') \<Rightarrow> if e' \<le> s' then [] else (s', e') # slices_from (sl + 1) sz a e)"
  by pat_completeness auto
termination
proof (relation "measure (\<lambda>(sl, sz, a, e). 2 ^ 32 - unat (a + sl * sz))", goal_cases)
  case 1
  show ?case by simp
next
  case (2 sl sz a e x y)
  then have c: "claimNextSlice sl sz a e = (x, y)" by simp
  have "unat (a + (sl + 1) * sz) < 2 ^ 32"
    using unsigned_less [of "a + (sl + 1) * sz"] by simp
  with claim_nonempty_advance [OF c 2(2)] show ?case by simp
qed

declare slices_from.simps [simp del]

text \<open>The positions of the axis that a sequence of slices holds, in order.\<close>

definition slice_points :: "(u32 \<times> u32) list \<Rightarrow> nat list" where
  "slice_points ss = concat (map (\<lambda>(s, e). [unat s..<unat e]) ss)"

text \<open>The range a callback slices: Y for \<^verbatim>\<open>wc_xy\<close>, X for \<^verbatim>\<open>wc_x\<close>.\<close>

definition axis_start :: "WorkerCallback_t \<Rightarrow> MTLaunchStruct \<Rightarrow> u32" where
  "axis_start cb m = (case cb of WC_XY \<Rightarrow> yStart m | WC_X \<Rightarrow> xStart m)"

definition axis_end :: "WorkerCallback_t \<Rightarrow> MTLaunchStruct \<Rightarrow> u32" where
  "axis_end cb m = (case cb of WC_XY \<Rightarrow> yEnd m | WC_X \<Rightarrow> xEnd m)"

text \<open>The kernel invocations a callback makes for a claimed slice, the slice it claims
  at the counter value \<open>c\<close>, and the test that ends its loop.\<close>

definition cb_body :: "WorkerCallback_t \<Rightarrow> MTLaunchStruct \<Rightarrow> u32 \<times> u32 \<Rightarrow> kcall list" where
  "cb_body cb m se =
     (case cb of WC_XY \<Rightarrow> wc_xy_body m (fst se) (snd se) | WC_X \<Rightarrow> wc_x_body m (fst se) (snd se))"

definition claim_at :: "WorkerCallback_t \<Rightarrow> MTLaunchStruct \<Rightarrow> u32 \<Rightarrow> u32 \<times> u32" where
  "claim_at cb m c = claimNextSlice c (mSliceSize m) (axis_start cb m) (axis_end cb m)"

definition empty_slice :: "u32 \<times> u32 \<Rightarrow> bool" where
  "empty_slice se = (snd se \<le> fst se)"

text \<open>The kernel invocations of the slice claimed at the counter value \<open>j\<close>.\<close>

definition slice_calls :: "WorkerCallback_t \<Rightarrow> MTLaunchStruct \<Rightarrow> nat \<Rightarrow> kcall list" where
  "slice_calls cb m j = cb_body cb m (claim_at cb m (of_nat j))"

subsection \<open>The state of the worker pool\<close>

text \<open>The kernel invocations a worker has still to make of the slice it holds, and
  whether it has returned.\<close>

fun pending :: "wstate \<Rightarrow> kcall multiset" where
  "pending (Busy cs) = mset cs"
| "pending Returned = {#}"

fun returned :: "wstate \<Rightarrow> nat" where
  "returned (Busy cs) = 0"
| "returned Returned = 1"

text \<open>The first \<open>k\<close> claims are non-empty and the \<open>n\<close> that follow are empty: each of
  \<open>n\<close> workers then makes the one empty claim it returns on.\<close>

definition claims_ok :: "WorkerCallback_t \<Rightarrow> MTLaunchStruct \<Rightarrow> nat \<Rightarrow> nat \<Rightarrow> bool" where
  "claims_ok cb m n k \<longleftrightarrow>
     (\<forall>j<k. \<not> empty_slice (claim_at cb m (of_nat j))) \<and>
     (\<forall>j. k \<le> j \<and> j < k + n \<longrightarrow> empty_slice (claim_at cb m (of_nat j)))"

text \<open>The invariant of a launch under every schedule. The counter stands at the number
  of non-empty slices claimed plus the number of workers that have returned, and the
  invocations made together with those the workers still hold are those of the slices
  claimed, as multisets.\<close>

definition pool_inv :: "WorkerCallback_t \<Rightarrow> MTLaunchStruct \<Rightarrow> nat \<Rightarrow> nat \<Rightarrow> pool \<Rightarrow> bool" where
  "pool_inv cb m n k p \<longleftrightarrow>
     (case p of (ws, m', tr) \<Rightarrow>
        length ws = n \<and>
        (\<exists>c. m' = m\<lparr>mSliceNum := of_nat c\<rparr> \<and>
             c = min c k + sum_list (map returned ws) \<and>
             mset tr + sum_list (map pending ws) =
               mset (concat (map (slice_calls cb m) [0..<min c k]))))"

subsection \<open>Addresses and memory\<close>

text \<open>The element offset the sequential path computes for a row:
  \<^verbatim>\<open>dimX * dimY * dimZ * ar + dimX * dimY * z + dimX * y\<close>, in 32 bits.\<close>

definition seq_offset :: "MTLaunchStruct \<Rightarrow> u32 \<times> u32 \<times> u32 \<times> u32 \<Rightarrow> u32" where
  "seq_offset m c =
     (case c of (x, y, z, ar) \<Rightarrow>
        dimX m * dimY m * dimZ m * ar + dimX m * dimY m * z + dimX m * y)"

text \<open>The flattened offset in the words of the spec:
  \<open>((array * dimZ + z) * dimY + y) * dimX + x\<close>.\<close>

definition spec_flat_offset :: "nat \<Rightarrow> nat \<Rightarrow> nat \<Rightarrow> nat \<times> nat \<times> nat \<times> nat \<Rightarrow> nat" where
  "spec_flat_offset dX dY dZ c =
     (case c of (x, y, z, ar) \<Rightarrow> ((ar * dZ + z) * dY + y) * dX + x)"

text \<open>Memory is a map from byte addresses to bytes. A kernel whose output element is a pure
  function \<open>f\<close> of its coordinates writes the bytes \<open>f (x, y, z, ar)\<close> at the output pointer
  it is given; \<open>playback\<close> runs the invocations of a trace in order.\<close>

type_synonym memory = "addr \<Rightarrow> 8 word"

text \<open>Writing bytes at consecutive addresses.\<close>

fun store_bytes :: "memory \<Rightarrow> addr \<Rightarrow> 8 word list \<Rightarrow> memory" where
  "store_bytes mem a [] = mem"
| "store_bytes mem a (b # bs) = store_bytes (mem(a := b)) (a + 1) bs"

text \<open>One invocation of the kernel \<open>f\<close>, and the invocations of a trace in order.\<close>

definition run_kernel :: "(u32 \<times> u32 \<times> u32 \<times> u32 \<Rightarrow> 8 word list) \<Rightarrow> kcall \<Rightarrow> memory \<Rightarrow> memory" where
  "run_kernel f c mem = store_bytes mem (p_out c) (f (coords c))"

definition playback :: "(u32 \<times> u32 \<times> u32 \<times> u32 \<Rightarrow> 8 word list) \<Rightarrow> kcall list \<Rightarrow> memory \<Rightarrow> memory" where
  "playback f cs mem = fold (run_kernel f) cs mem"

subsection \<open>Example inputs\<close>

text \<open>A one-dimensional allocation of 2 one-byte elements at address 4096.\<close>

definition buf_1d :: Allocation where
  "buf_1d = \<lparr>getDimX = 2, getDimY = 0, getDimZ = 0, getElementSizeBytes = 1,
             lod0_mallocPtr = 4096, lod0_stride = 2\<rparr>"

text \<open>An allocation of 3 x 4 four-byte elements at address 4096, rows 16 bytes apart.\<close>

definition buf_3x4 :: Allocation where
  "buf_3x4 = \<lparr>getDimX = 3, getDimY = 4, getDimZ = 0, getElementSizeBytes = 4,
              lod0_mallocPtr = 4096, lod0_stride = 16\<rparr>"

text \<open>An allocation of 2 x 64 one-byte elements.\<close>

definition buf_2x64 :: Allocation where
  "buf_2x64 = \<lparr>getDimX = 2, getDimY = 64, getDimZ = 0, getElementSizeBytes = 1,
             lod0_mallocPtr = 4096, lod0_stride = 2\<rparr>"

text \<open>An allocation of 2 x 2 x 4 one-byte elements.\<close>

definition buf_2x2x4 :: Allocation where
  "buf_2x2x4 = \<lparr>getDimX = 2, getDimY = 2, getDimZ = 4, getElementSizeBytes = 1,
             lod0_mallocPtr = 4096, lod0_stride = 2\<rparr>"

text \<open>A clip descriptor with the given X and Y bounds.\<close>

definition clip_of :: "u32 \<Rightarrow> u32 \<Rightarrow> u32 \<Rightarrow> u32 \<Rightarrow> RsScriptCall" where
  "clip_of xs xe ys ye =
     \<lparr>sc_xStart = xs, sc_xEnd = xe, sc_yStart = ys, sc_yEnd = ye,
      sc_zStart = 0, sc_zEnd = 0, sc_arrayStart = 0, sc_arrayEnd = 0\<rparr>"

text \<open>A kernel that writes the byte \<open>x + 7\<close> to its output element.\<close>

definition kernel_x_plus_7 :: "u32 \<times> u32 \<times> u32 \<times> u32 \<Rightarrow> 8 word list" where
  "kernel_x_plus_7 c = [ucast (fst c) + 7]"

section \<open>Properties\<close>

subsection \<open>Traces and the resolved ranges\<close>

lemma kernel_calls_map_Kernel [simp]: "kernel_calls (map Kernel cs) = cs"
  by (induction cs) auto

lemma kernel_calls_append [simp]: "kernel_calls (es @ fs) = kernel_calls es @ kernel_calls fs"
  by (induction es rule: kernel_calls.induct) auto

lemma launches_map_Kernel [simp]: "launches (map Kernel cs) = []"
  by (induction cs) auto

lemma launches_append [simp]: "launches (es @ fs) = launches es @ launches fs"
  by (induction es rule: launches.induct) auto

lemma bind_buffers_bounds [simp]:
  "xStart (bind_buffers ain aout m) = xStart m" "xEnd (bind_buffers ain aout m) = xEnd m"
  "yStart (bind_buffers ain aout m) = yStart m" "yEnd (bind_buffers ain aout m) = yEnd m"
  "zStart (bind_buffers ain aout m) = zStart m" "zEnd (bind_buffers ain aout m) = zEnd m"
  "arrayStart (bind_buffers ain aout m) = arrayStart m"
  "arrayEnd (bind_buffers ain aout m) = arrayEnd m"
  "dimX (bind_buffers ain aout m) = dimX m" "dimY (bind_buffers ain aout m) = dimY m"
  "dimZ (bind_buffers ain aout m) = dimZ m" "dimArray (bind_buffers ain aout m) = dimArray m"
  by (simp_all add: bind_buffers_def Let_def split: option.splits)

lemma floor_ends_bounds [simp]:
  "xStart (floor_ends m) = xStart m" "xEnd (floor_ends m) = max 1 (xEnd m)"
  "yStart (floor_ends m) = yStart m" "yEnd (floor_ends m) = max 1 (yEnd m)"
  "zStart (floor_ends m) = zStart m" "zEnd (floor_ends m) = max 1 (zEnd m)"
  "arrayStart (floor_ends m) = arrayStart m" "arrayEnd (floor_ends m) = max 1 (arrayEnd m)"
  "dimX (floor_ends m) = dimX m" "dimY (floor_ends m) = dimY m"
  "dimZ (floor_ends m) = dimZ m" "dimArray (floor_ends m) = dimArray m"
  by (simp_all add: floor_ends_def)

lemma clip_y_keeps:
  assumes "clip_y sc m = Some m'"
  shows "xStart m' = xStart m" "xEnd m' = xEnd m" "zStart m' = zStart m" "zEnd m' = zEnd m"
    "arrayStart m' = arrayStart m" "arrayEnd m' = arrayEnd m"
    "dimX m' = dimX m" "dimY m' = dimY m" "dimZ m' = dimZ m" "dimArray m' = dimArray m"
  using assms by (auto simp: clip_y_def Let_def split: option.splits if_splits)

lemma clip_x_keeps:
  assumes "clip_x sc m = Some m'"
  shows "yStart m' = yStart m" "yEnd m' = yEnd m" "zStart m' = zStart m" "zEnd m' = zEnd m"
    "arrayStart m' = arrayStart m" "arrayEnd m' = arrayEnd m"
    "dimX m' = dimX m" "dimY m' = dimY m" "dimZ m' = dimZ m" "dimArray m' = dimArray m"
  using assms by (auto simp: clip_x_def Let_def split: option.splits if_splits)

lemma launch_dims_zero:
  assumes "launch_dims ain aout mtls_zero = Some m"
  shows "xStart m = 0" "xEnd m = 0" "yStart m = 0" "yEnd m = 0" "zStart m = 0" "zEnd m = 0"
    "arrayStart m = 0" "arrayEnd m = 0" "dimArray m = 0"
  using assms by (auto simp: launch_dims_def mtls_zero_def split: option.splits)

lemma u32_lt_max1: "(a::u32) < max 1 b \<longleftrightarrow> a < b \<or> a = 0"
  by (auto simp: max_def word_less_nat_alt word_le_nat_alt unat_eq_zero)

text \<open>The X range that \<open>clip_x\<close> leaves, from a launch structure whose X range is still
  zero.\<close>

lemma clip_x_range:
  assumes "clip_x sc m = Some m'" and "xStart m = 0"
  shows "xStart m' < max 1 (xEnd m')"
  using assms by (auto simp: clip_x_def Let_def u32_lt_max1 not_le split: option.splits if_splits)

lemma clip_y_range:
  assumes "clip_y sc m = Some m'" and "yStart m = 0"
  shows "yStart m' < max 1 (yEnd m')"
  using assms by (auto simp: clip_y_def Let_def u32_lt_max1 not_le split: option.splits if_splits)

lemma resolve_launch_SomeD:
  assumes "resolve_launch ain aout sc = Some mtls"
  obtains m1 m2 m3 where "launch_dims ain aout mtls_zero = Some m1" "clip_x sc m1 = Some m2"
    "clip_y sc m2 = Some m3" "mtls = bind_buffers ain aout (floor_ends m3)"
  using assms by (auto simp: resolve_launch_def split: option.splits)

text \<open>A dispatch that gets past the range checks has non-empty X and Y ranges, and the
  Z and array ranges \<open>[0, 1)\<close>.\<close>

lemma resolve_launch_ranges:
  assumes "resolve_launch ain aout sc = Some mtls"
  shows "xStart mtls < xEnd mtls \<and> yStart mtls < yEnd mtls \<and>
         zStart mtls = 0 \<and> zEnd mtls = 1 \<and> arrayStart mtls = 0 \<and> arrayEnd mtls = 1"
proof -
  from assms obtain m1 m2 m3 where
    1: "launch_dims ain aout mtls_zero = Some m1" and 2: "clip_x sc m1 = Some m2" and
    3: "clip_y sc m2 = Some m3" and m: "mtls = bind_buffers ain aout (floor_ends m3)"
    by (rule resolve_launch_SomeD)
  have x: "xStart m2 < max 1 (xEnd m2)"
    using clip_x_range [OF 2] launch_dims_zero(1) [OF 1] by simp
  have "yStart m2 = 0" using clip_x_keeps(1) [OF 2] launch_dims_zero(3) [OF 1] by simp
  then have y: "yStart m3 < max 1 (yEnd m3)" using clip_y_range [OF 3] by simp
  have z: "zStart m3 = 0" "zEnd m3 = 0" "arrayStart m3 = 0" "arrayEnd m3 = 0"
    using clip_y_keeps [OF 3] clip_x_keeps [OF 2] launch_dims_zero [OF 1] by simp_all
  show ?thesis using x y z clip_y_keeps(1,2) [OF 3] by (simp add: m)
qed

subsection \<open>Missing buffers\<close>

text \<open>C4. A dispatch with neither an input nor an output allocation reports an error to
  the caller (the code \<^verbatim>\<open>RS_ERROR_BAD_SCRIPT\<close> with the message "rsForEach called with
  null allocations", which is the spec's MissingBuffer) and returns: no kernel invocation,
  no launch, the driver state unchanged, whatever the clip, the worker pool and the
  script are.\<close>

theorem missing_buffer_rejected:
  "rsdScriptInvokeForEach dc s None None sc sched =
     Inr \<lparr>o_hal = dc,
          o_error = Some (RS_ERROR_BAD_SCRIPT, ''rsForEach called with null allocations''),
          o_trace = []\<rparr>"
  by (simp add: rsdScriptInvokeForEach_def launch_dims_def)

subsection \<open>The choice between the parallel and the sequential path\<close>

lemma computeSliceSize_Inl_iff: "computeSliceSize d n = Inl f \<longleftrightarrow> n * 4 = 0"
  by (cases f) (simp add: computeSliceSize_def Let_def)

lemma parallel_launch_cases:
  "parallel_launch dc cb d sched mtls =
     (if mCount dc * 4 = 0 then Inl DivideByZero
      else Inr \<lparr>o_hal = dc\<lparr>mInForEach := False\<rparr>, o_error = None,
                o_trace = InForEach True #
                  LaunchThreads cb (mtls\<lparr>mSliceSize :=
                     (if d div (mCount dc * 4) < 1 then 1 else d div (mCount dc * 4))\<rparr>) #
                  map Kernel (fst (rsdLaunchThreads cb (unat (mCount dc)) sched
                     (mtls\<lparr>mSliceSize :=
                        (if d div (mCount dc * 4) < 1 then 1 else d div (mCount dc * 4))\<rparr>))) @
                  [InForEach False]\<rparr>)"
  by (simp add: parallel_launch_def computeSliceSize_def Let_def)

text \<open>The dispatcher past the buffer and range checks.\<close>

lemma dispatch_resolved:
  assumes "resolve_launch ain aout sc = Some mtls"
  shows "rsdScriptInvokeForEach dc s ain aout sc sched =
           (if mCount dc > 1 \<and> isThreadable s \<and> \<not> mInForEach dc then
              (if dimY mtls > 1 then parallel_launch dc WC_XY (dimY mtls) sched mtls
               else parallel_launch dc WC_X (dimX mtls) sched mtls)
            else Inr \<lparr>o_hal = dc, o_error = None, o_trace = map Kernel (sequential_loops mtls)\<rparr>)"
proof -
  from assms obtain m1 where "launch_dims ain aout mtls_zero = Some m1"
    by (rule resolve_launch_SomeD)
  with assms show ?thesis by (simp add: rsdScriptInvokeForEach_def)
qed

lemma parallel_launch_Inl: "mCount dc * 4 = 0 \<Longrightarrow> parallel_launch dc cb d sched mtls = Inl DivideByZero"
  by (simp add: parallel_launch_cases)

lemma parallel_launch_Inr:
  assumes "mCount dc * 4 \<noteq> 0"
  obtains m cs where
    "parallel_launch dc cb d sched mtls =
       Inr \<lparr>o_hal = dc\<lparr>mInForEach := False\<rparr>, o_error = None,
            o_trace = InForEach True # LaunchThreads cb m # map Kernel cs @ [InForEach False]\<rparr>"
  using assms by (simp add: parallel_launch_cases)

lemma parallel_launch_shape:
  "case parallel_launch dc cb d sched mtls of
     Inl f \<Rightarrow> mCount dc * 4 = 0
   | Inr out \<Rightarrow>
       mInForEach (o_hal out) = False \<and> mCount (o_hal out) = mCount dc \<and>
       (\<exists>cb m cs. o_trace out =
          InForEach True # LaunchThreads cb m # map Kernel cs @ [InForEach False])"
proof (cases "mCount dc * 4 = 0")
  case True
  then show ?thesis by (simp add: parallel_launch_Inl)
next
  case False
  from parallel_launch_Inr [OF False, of cb d sched mtls] obtain m cs where
    "parallel_launch dc cb d sched mtls =
       Inr \<lparr>o_hal = dc\<lparr>mInForEach := False\<rparr>, o_error = None,
            o_trace = InForEach True # LaunchThreads cb m # map Kernel cs @ [InForEach False]\<rparr>"
    by blast
  then show ?thesis by auto
qed

text \<open>C5. For a dispatch that gets past the buffer and range checks: the parallel path is
  taken if and only if the pool has more than one worker, the script is threadable and
  \<^verbatim>\<open>mInForEach\<close> is clear. On the parallel path the flag is set before the threads are
  launched and before any kernel invocation, and it is cleared as the last action, so the
  call returns with the flag clear (unless the 32-bit product \<open>mCount * 4\<close> is 0, where the
  division that computes the slice size is undefined and the model faults). In every
  other case, in particular when the flag is set on entry, the call runs the sequential
  loops on the calling thread, launches nothing and leaves the driver state, the flag
  included, as it was.\<close>

theorem parallel_choice:
  assumes "resolve_launch ain aout sc = Some mtls"
  shows "if 1 < mCount dc \<and> isThreadable s \<and> \<not> mInForEach dc
         then (case rsdScriptInvokeForEach dc s ain aout sc sched of
                 Inl f \<Rightarrow> mCount dc * 4 = 0
               | Inr out \<Rightarrow>
                   mInForEach (o_hal out) = False \<and> mCount (o_hal out) = mCount dc \<and>
                   (\<exists>cb m cs. o_trace out =
                      InForEach True # LaunchThreads cb m # map Kernel cs @ [InForEach False]))
         else rsdScriptInvokeForEach dc s ain aout sc sched =
                Inr \<lparr>o_hal = dc, o_error = None, o_trace = map Kernel (sequential_loops mtls)\<rparr>"
proof (cases "1 < mCount dc \<and> isThreadable s \<and> \<not> mInForEach dc")
  case False
  show ?thesis by (simp only: dispatch_resolved [OF assms] if_not_P [OF False])
next
  case True
  show ?thesis
  proof (cases "1 < dimY mtls")
    case y: True
    with True have "rsdScriptInvokeForEach dc s ain aout sc sched =
        parallel_launch dc WC_XY (dimY mtls) sched mtls"
      by (simp add: dispatch_resolved [OF assms])
    with True parallel_launch_shape [of dc WC_XY "dimY mtls" sched mtls] show ?thesis by simp
  next
    case n: False
    with True have "rsdScriptInvokeForEach dc s ain aout sc sched =
        parallel_launch dc WC_X (dimX mtls) sched mtls"
      by (simp add: dispatch_resolved [OF assms])
    with True parallel_launch_shape [of dc WC_X "dimX mtls" sched mtls] show ?thesis by simp
  qed
qed

lemma resolve_buf_1d:
  "resolve_launch None (Some buf_1d) None =
     Some (mtls_zero\<lparr>dimX := 2, xEnd := 2, yEnd := 1, zEnd := 1, arrayEnd := 1,
            mSliceSize := 10, ptrOut := 4096, eStrideOut := 1, yStrideOut := 2\<rparr>)"
  by (simp add: resolve_launch_def launch_dims_def clip_x_def clip_y_def floor_ends_def
      bind_buffers_def buf_1d_def mtls_zero_def)

text \<open>A dispatch entered with the flag set, two workers and a threadable script: it runs
  sequentially and returns with the flag still set.\<close>

theorem parallel_choice_witness:
  "rsdScriptInvokeForEach \<lparr>mCount = 2, mInForEach = True\<rparr> \<lparr>isThreadable = True\<rparr>
     None (Some buf_1d) None [] =
   Inr \<lparr>o_hal = \<lparr>mCount = 2, mInForEach = True\<rparr>, o_error = None,
        o_trace = [Kernel (KCall 0 4096 0 0 0 0), Kernel (KCall 0 4097 1 0 0 0)]\<rparr>"
proof -
  have "sequential_loops (mtls_zero\<lparr>dimX := 2, xEnd := 2, yEnd := 1, zEnd := 1, arrayEnd := 1,
            mSliceSize := 10, ptrOut := 4096, eStrideOut := 1, yStrideOut := 2\<rparr>) =
        [KCall 0 4096 0 0 0 0, KCall 0 4097 1 0 0 0]"
    by (simp add: sequential_loops_def mtls_zero_def for_u32.simps x_loop.simps)
  with parallel_choice [OF resolve_buf_1d, of "\<lparr>mCount = 2, mInForEach = True\<rparr>" "\<lparr>isThreadable = True\<rparr>" "[]"]
  show ?thesis by simp
qed

subsection \<open>The slice size\<close>

lemma u32_times4: "unat (n::u32) < 2 ^ 30 \<Longrightarrow> unat (n * 4) = unat n * 4"
  by (simp add: unat_word_ariths)

text \<open>The slice size in natural-number arithmetic, where \<open>mCount * 4\<close> does not wrap.\<close>

lemma computeSliceSize_nat:
  assumes "1 \<le> unat n" and "unat (n::u32) < 2 ^ 30"
  shows "\<exists>sz. computeSliceSize d n = Inr sz \<and> unat sz = max 1 (unat d div (unat n * 4))"
proof -
  have n4: "unat (n * 4) = unat n * 4" using assms(2) by (rule u32_times4)
  with assms(1) have nz: "n * 4 \<noteq> 0" by (auto simp: unat_eq_zero [symmetric] simp del: unat_eq_zero)
  have q: "unat (d div (n * 4)) = unat d div (unat n * 4)" by (simp add: unat_div n4)
  show ?thesis
  proof (cases "d div (n * 4) < 1")
    case True
    then have "unat (d div (n * 4)) = 0" by (simp add: word_less_1)
    with True nz q show ?thesis by (simp add: computeSliceSize_def Let_def)
  next
    case False
    then have "1 \<le> unat (d div (n * 4))" by (simp add: word_less_1 unat_gt_0 Suc_le_eq)
    with False nz q show ?thesis by (simp add: computeSliceSize_def Let_def max_def)
  qed
qed

lemma launches_parallel:
  "computeSliceSize d (mCount dc) = Inr sz \<Longrightarrow>
   \<exists>out. parallel_launch dc cb d sched mtls = Inr out \<and>
         launches (o_trace out) = [(cb, mtls\<lparr>mSliceSize := sz\<rparr>)]"
  by (simp add: parallel_launch_def Let_def)

text \<open>C7 (amended). In a parallel dispatch with fewer than \<open>2 ^ 30\<close> workers (so that the
  32-bit product \<open>mCount * 4\<close> does not wrap), the threads are launched once, with the
  callback \<^verbatim>\<open>wc_xy\<close> (slicing Y) when \<open>dimY > 1\<close> and \<^verbatim>\<open>wc_x\<close> (slicing X) otherwise, and
  with the slice size \<open>max 1 (d div (mCount * 4))\<close>, where \<open>d\<close> is the buffer's dimension
  on the sliced axis (\<open>dimY\<close>, respectively \<open>dimX\<close>; the dimension, not the extent of a
  clipped range). The rest of the launch structure is as resolved.\<close>

theorem slice_size_used:
  assumes "resolve_launch ain aout sc = Some mtls"
    and "1 < mCount dc" and "isThreadable s" and "\<not> mInForEach dc"
    and "unat (mCount dc) < 2 ^ 30"
  shows "\<exists>out sz. rsdScriptInvokeForEach dc s ain aout sc sched = Inr out \<and>
           launches (o_trace out) =
             [(if 1 < dimY mtls then WC_XY else WC_X, mtls\<lparr>mSliceSize := sz\<rparr>)] \<and>
           unat sz = max 1 (unat (if 1 < dimY mtls then dimY mtls else dimX mtls)
                              div (unat (mCount dc) * 4))"
proof -
  from assms(2) have "1 \<le> unat (mCount dc)" by (simp add: word_less_nat_alt)
  from computeSliceSize_nat [OF this assms(5)] obtain sz where
    sz: "computeSliceSize (if 1 < dimY mtls then dimY mtls else dimX mtls) (mCount dc) = Inr sz"
        "unat sz = max 1 (unat (if 1 < dimY mtls then dimY mtls else dimX mtls)
                              div (unat (mCount dc) * 4))"
    by blast
  from launches_parallel [OF sz(1)] obtain out where
    "parallel_launch dc (if 1 < dimY mtls then WC_XY else WC_X)
       (if 1 < dimY mtls then dimY mtls else dimX mtls) sched mtls = Inr out"
    "launches (o_trace out) = [(if 1 < dimY mtls then WC_XY else WC_X, mtls\<lparr>mSliceSize := sz\<rparr>)]"
    by blast
  moreover have "rsdScriptInvokeForEach dc s ain aout sc sched =
      parallel_launch dc (if 1 < dimY mtls then WC_XY else WC_X)
       (if 1 < dimY mtls then dimY mtls else dimX mtls) sched mtls"
    using assms(2-4) by (simp add: dispatch_resolved [OF assms(1)])
  ultimately show ?thesis using sz(2) by auto
qed

lemma resolve_buf_2x64:
  "resolve_launch None (Some buf_2x64) None =
     Some (mtls_zero\<lparr>dimX := 2, dimY := 64, xEnd := 2, yEnd := 64, zEnd := 1, arrayEnd := 1,
            mSliceSize := 10, ptrOut := 4096, eStrideOut := 1, yStrideOut := 2\<rparr>)"
  by (simp add: resolve_launch_def launch_dims_def clip_x_def clip_y_def floor_ends_def
      bind_buffers_def buf_2x64_def mtls_zero_def)

lemma dimY_buf_2x64: "dimY (mtls_zero\<lparr>dimX := 2, dimY := 64, xEnd := 2, yEnd := 64, zEnd := 1, arrayEnd := 1,
            mSliceSize := 10, ptrOut := 4096, eStrideOut := 1, yStrideOut := 2\<rparr>) = 64"
  by simp

text \<open>A 2 x 64 buffer and two workers: Y is sliced in slices of \<open>64 div 8 = 8\<close> rows.\<close>

theorem slice_size_used_witness:
  "slice_sizes (rsdScriptInvokeForEach \<lparr>mCount = 2, mInForEach = False\<rparr> \<lparr>isThreadable = True\<rparr>
     None (Some buf_2x64) None []) = [(WC_XY, 8)]"
proof -
  have h: "1 < mCount \<lparr>mCount = 2, mInForEach = False\<rparr>" "isThreadable \<lparr>isThreadable = True\<rparr>"
    "\<not> mInForEach \<lparr>mCount = 2, mInForEach = False\<rparr>"
    "unat (mCount \<lparr>mCount = 2, mInForEach = False\<rparr>) < 2 ^ 30"
    by simp_all
  from slice_size_used [OF resolve_buf_2x64 h, of "[]"]
  obtain out sz where
    o: "rsdScriptInvokeForEach \<lparr>mCount = 2, mInForEach = False\<rparr> \<lparr>isThreadable = True\<rparr>
          None (Some buf_2x64) None [] = Inr out"
       "map (\<lambda>(cb, m). (cb, mSliceSize m)) (launches (o_trace out)) = [(WC_XY, sz)]"
       "unat sz = 8"
    unfolding dimY_buf_2x64 by auto
  from o(3) have "sz = 8" by (simp add: word_unat_eq_iff)
  with o(1,2) show ?thesis by (simp add: slice_sizes_def)
qed

text \<open>C7 as stated, for every worker count, fails where \<open>mCount * 4\<close> wraps: with
  \<open>2 ^ 30 + 1\<close> workers the product is 4, and the slice size for 64 rows is 16, not
  \<open>max 1 (64 div (4 * (2 ^ 30 + 1))) = 1\<close>.\<close>

theorem slice_size_counterexample:
  "slice_sizes (rsdScriptInvokeForEach \<lparr>mCount = 0x40000001, mInForEach = False\<rparr>
     \<lparr>isThreadable = True\<rparr> None (Some buf_2x64) None []) = [(WC_XY, 16)] \<and>
   max 1 (unat (getDimY buf_2x64) div (unat (0x40000001 :: u32) * 4)) = 1"
proof -
  have "slice_sizes (rsdScriptInvokeForEach \<lparr>mCount = 0x40000001, mInForEach = False\<rparr>
     \<lparr>isThreadable = True\<rparr> None (Some buf_2x64) None []) = [(WC_XY, 16)]"
    unfolding dispatch_resolved [OF resolve_buf_2x64] dimY_buf_2x64
    by (simp add: slice_sizes_def parallel_launch_cases)
  moreover have "max 1 (unat (getDimY buf_2x64) div (unat (0x40000001 :: u32) * 4)) = 1"
    by (simp add: buf_2x64_def)
  ultimately show ?thesis by simp
qed

subsection \<open>Axis fallback, and a clip whose end is 0\<close>

lemma dispatch_cong:
  "resolve_launch ain aout sc = resolve_launch ain aout sc' \<Longrightarrow>
   rsdScriptInvokeForEach dc s ain aout sc sched = rsdScriptInvokeForEach dc s ain aout sc' sched"
  unfolding rsdScriptInvokeForEach_def by (simp only:)

lemma clip_x_no_clip: "no_clip_x sc \<Longrightarrow> clip_x sc m = Some (m\<lparr>xEnd := dimX m\<rparr>)"
  by (cases sc) (simp_all add: no_clip_x_def clip_x_def)

lemma clip_y_no_clip: "no_clip_y sc \<Longrightarrow> clip_y sc m = Some (m\<lparr>yEnd := dimY m\<rparr>)"
  by (cases sc) (simp_all add: no_clip_y_def clip_y_def)

lemma clip_x_ignores_start:
  "sc_xEnd c = 0 \<Longrightarrow> clip_x (Some (c\<lparr>sc_xStart := v\<rparr>)) m = clip_x (Some c) m"
  by (simp add: clip_x_def)

lemma clip_x_ignores_y:
  "clip_x (Some (c\<lparr>sc_yStart := v\<rparr>)) m = clip_x (Some c) m"
  by (simp add: clip_x_def)

lemma clip_y_ignores_start:
  "sc_yEnd c = 0 \<Longrightarrow> clip_y (Some (c\<lparr>sc_yStart := v\<rparr>)) m = clip_y (Some c) m"
  by (simp add: clip_y_def)

lemma clip_y_ignores_x:
  "clip_y (Some (c\<lparr>sc_xStart := v\<rparr>)) m = clip_y (Some c) m"
  by (simp add: clip_y_def)

lemma resolve_launch_ignores_xStart:
  "sc_xEnd c = 0 \<Longrightarrow>
   resolve_launch ain aout (Some (c\<lparr>sc_xStart := v\<rparr>)) = resolve_launch ain aout (Some c)"
  by (simp add: resolve_launch_def clip_x_ignores_start clip_y_ignores_x cong: option.case_cong)

lemma resolve_launch_ignores_yStart:
  "sc_yEnd c = 0 \<Longrightarrow>
   resolve_launch ain aout (Some (c\<lparr>sc_yStart := v\<rparr>)) = resolve_launch ain aout (Some c)"
  by (simp add: resolve_launch_def clip_x_ignores_y clip_y_ignores_start cong: option.case_cong)

lemma resolve_launch_no_clip_x:
  assumes "launch_dims ain aout mtls_zero = Some m" and "resolve_launch ain aout sc = Some mtls"
    and "no_clip_x sc"
  shows "xStart mtls = 0 \<and> xEnd mtls = max 1 (dimX m)"
proof -
  from assms(2) obtain m1 m2 m3 where
    1: "launch_dims ain aout mtls_zero = Some m1" and 2: "clip_x sc m1 = Some m2" and
    3: "clip_y sc m2 = Some m3" and m: "mtls = bind_buffers ain aout (floor_ends m3)"
    by (rule resolve_launch_SomeD)
  from 1 assms(1) have m1: "m1 = m" by simp
  from 2 clip_x_no_clip [OF assms(3), of m] have "m2 = m\<lparr>xEnd := dimX m\<rparr>" by (simp add: m1)
  then have "xStart m2 = 0" "xEnd m2 = dimX m" using launch_dims_zero(1) [OF assms(1)] by simp_all
  with clip_y_keeps(1,2) [OF 3] show ?thesis by (simp add: m)
qed

lemma resolve_launch_no_clip_y:
  assumes "launch_dims ain aout mtls_zero = Some m" and "resolve_launch ain aout sc = Some mtls"
    and "no_clip_y sc"
  shows "yStart mtls = 0 \<and> yEnd mtls = max 1 (dimY m)"
proof -
  from assms(2) obtain m1 m2 m3 where
    1: "launch_dims ain aout mtls_zero = Some m1" and 2: "clip_x sc m1 = Some m2" and
    3: "clip_y sc m2 = Some m3" and m: "mtls = bind_buffers ain aout (floor_ends m3)"
    by (rule resolve_launch_SomeD)
  from 1 assms(1) have m1: "m1 = m" by simp
  have y2: "yStart m2 = 0" "dimY m2 = dimY m"
    using clip_x_keeps(1,8) [OF 2] launch_dims_zero(3) [OF assms(1)] by (simp_all add: m1)
  from 3 clip_y_no_clip [OF assms(3), of m2] have "m3 = m2\<lparr>yEnd := dimY m2\<rparr>" by simp
  with y2 show ?thesis by (simp add: m)
qed

text \<open>C6 (amended). For a dispatch that gets past the buffer and range checks, \<open>m\<close> holding
  the dimensions of the bound buffer: on the X axis and on the Y axis, when no clip is
  supplied or the clip's end bound on that axis is 0, the range starts at 0 and ends at
  the buffer's dimension on that axis, floored to 1; so a flat buffer (dimension 0) gives
  the single step \<open>[0, 1)\<close> there. The end bounds of X and Y are at least 1 in every case.
  The Z range and the array range are \<open>[0, 1)\<close> always: neither the clip nor the buffer's
  Z dimension is consulted for them.\<close>

theorem axis_fallback:
  assumes "launch_dims ain aout mtls_zero = Some m" and "resolve_launch ain aout sc = Some mtls"
  shows "(no_clip_x sc \<longrightarrow> xStart mtls = 0 \<and> xEnd mtls = max 1 (dimX m)) \<and>
         (no_clip_y sc \<longrightarrow> yStart mtls = 0 \<and> yEnd mtls = max 1 (dimY m)) \<and>
         zStart mtls = 0 \<and> zEnd mtls = 1 \<and> arrayStart mtls = 0 \<and> arrayEnd mtls = 1 \<and>
         1 \<le> xEnd mtls \<and> 1 \<le> yEnd mtls"
proof -
  from assms(2) obtain m1 m2 m3 where
    m: "mtls = bind_buffers ain aout (floor_ends m3)"
    by (rule resolve_launch_SomeD)
  have "1 \<le> xEnd mtls" "1 \<le> yEnd mtls" by (simp_all add: m)
  with resolve_launch_no_clip_x [OF assms] resolve_launch_no_clip_y [OF assms]
    resolve_launch_ranges [OF assms(2)]
  show ?thesis by simp
qed

text \<open>C10 (amended). With a buffer bound (\<open>m\<close> holding its dimensions), a clip descriptor whose
  \<open>xEnd\<close> is 0 has its \<open>xStart\<close> ignored entirely: the dispatch is the same whatever value
  \<open>xStart\<close> is replaced with, and the X range it goes on with is \<open>[0, max 1 dimX)\<close>, that
  is \<open>[0, dimX)\<close> unless \<open>dimX\<close> is 0, where it is \<open>[0, 1)\<close>. Likewise a \<open>yEnd\<close> of 0 has
  \<open>yStart\<close> ignored and the Y range is \<open>[0, max 1 dimY)\<close>.\<close>

theorem clip_end_zero_ignores_start:
  assumes "launch_dims ain aout mtls_zero = Some m"
  shows "(sc_xEnd c = 0 \<longrightarrow>
            rsdScriptInvokeForEach dc s ain aout (Some (c\<lparr>sc_xStart := v\<rparr>)) sched =
              rsdScriptInvokeForEach dc s ain aout (Some c) sched \<and>
            (case resolve_launch ain aout (Some c) of
               None \<Rightarrow> True
             | Some mtls \<Rightarrow> xStart mtls = 0 \<and> xEnd mtls = max 1 (dimX m))) \<and>
         (sc_yEnd c = 0 \<longrightarrow>
            rsdScriptInvokeForEach dc s ain aout (Some (c\<lparr>sc_yStart := v\<rparr>)) sched =
              rsdScriptInvokeForEach dc s ain aout (Some c) sched \<and>
            (case resolve_launch ain aout (Some c) of
               None \<Rightarrow> True
             | Some mtls \<Rightarrow> yStart mtls = 0 \<and> yEnd mtls = max 1 (dimY m)))"
proof (intro conjI impI)
  assume "sc_xEnd c = 0"
  then show "rsdScriptInvokeForEach dc s ain aout (Some (c\<lparr>sc_xStart := v\<rparr>)) sched =
      rsdScriptInvokeForEach dc s ain aout (Some c) sched"
    by (intro dispatch_cong resolve_launch_ignores_xStart)
next
  assume "sc_yEnd c = 0"
  then show "rsdScriptInvokeForEach dc s ain aout (Some (c\<lparr>sc_yStart := v\<rparr>)) sched =
      rsdScriptInvokeForEach dc s ain aout (Some c) sched"
    by (intro dispatch_cong resolve_launch_ignores_yStart)
next
  assume "sc_xEnd c = 0"
  then have "no_clip_x (Some c)" by (simp add: no_clip_x_def)
  then show "case resolve_launch ain aout (Some c) of None \<Rightarrow> True
     | Some mtls \<Rightarrow> xStart mtls = 0 \<and> xEnd mtls = max 1 (dimX m)"
    using resolve_launch_no_clip_x [OF assms] by (simp split: option.splits)
next
  assume "sc_yEnd c = 0"
  then have "no_clip_y (Some c)" by (simp add: no_clip_y_def)
  then show "case resolve_launch ain aout (Some c) of None \<Rightarrow> True
     | Some mtls \<Rightarrow> yStart mtls = 0 \<and> yEnd mtls = max 1 (dimY m)"
    using resolve_launch_no_clip_y [OF assms] by (simp split: option.splits)
qed

lemma launch_dims_buf_1d:
  "launch_dims None (Some buf_1d) mtls_zero = Some (mtls_zero\<lparr>dimX := 2, dimY := 0, dimZ := 0\<rparr>)"
  by (simp add: launch_dims_def buf_1d_def)

lemma launch_dims_buf_3x4:
  "launch_dims None (Some buf_3x4) mtls_zero = Some (mtls_zero\<lparr>dimX := 3, dimY := 4, dimZ := 0\<rparr>)"
  by (simp add: launch_dims_def buf_3x4_def)

text \<open>A one-dimensional buffer of 2 elements (\<open>dimY = 0\<close>), no clip.\<close>

theorem axis_fallback_witness:
  "no_clip_x None \<and> no_clip_y None \<and>
   map_option resolved_ranges (resolve_launch None (Some buf_1d) None) =
     Some ((0, 2), (0, 1), (0, 1), (0, 1))"
proof -
  have "\<exists>mtls. resolve_launch None (Some buf_1d) None = Some mtls" by (simp add: resolve_buf_1d)
  then obtain mtls where r: "resolve_launch None (Some buf_1d) None = Some mtls" ..
  have n: "no_clip_x None" "no_clip_y None" by (simp_all add: no_clip_x_def no_clip_y_def)
  from axis_fallback [OF launch_dims_buf_1d r] n
  have "resolved_ranges mtls = ((0, 2), (0, 1), (0, 1), (0, 1))"
    by (simp add: resolved_ranges_def)
  with r n show ?thesis by simp
qed

text \<open>C6 as stated, for every axis, fails on Z: an output buffer with \<open>dimZ = 4\<close> and no
  clip is run over the Z range \<open>[0, 1)\<close> only, not over the buffer's full Z dimension.\<close>

theorem axis_fallback_counterexample:
  "getDimZ buf_2x2x4 = 4 \<and>
   map_option resolved_ranges (resolve_launch None (Some buf_2x2x4) None) =
     Some ((0, 2), (0, 2), (0, 1), (0, 1)) \<and>
   visited (rsdScriptInvokeForEach \<lparr>mCount = 1, mInForEach = False\<rparr> \<lparr>isThreadable = True\<rparr>
     None (Some buf_2x2x4) None []) = [(0, 0, 0, 0), (1, 0, 0, 0), (0, 1, 0, 0), (1, 1, 0, 0)]"
proof -
  have r: "resolve_launch None (Some buf_2x2x4) None =
     Some (mtls_zero\<lparr>dimX := 2, dimY := 2, dimZ := 4, xEnd := 2, yEnd := 2, zEnd := 1,
            arrayEnd := 1, mSliceSize := 10, ptrOut := 4096, eStrideOut := 1, yStrideOut := 2\<rparr>)"
    by (simp add: resolve_launch_def launch_dims_def clip_x_def clip_y_def floor_ends_def
      bind_buffers_def buf_2x2x4_def mtls_zero_def)
  have s: "map coords (sequential_loops (mtls_zero\<lparr>dimX := 2, dimY := 2, dimZ := 4, xEnd := 2, yEnd := 2, zEnd := 1,
            arrayEnd := 1, mSliceSize := 10, ptrOut := 4096, eStrideOut := 1, yStrideOut := 2\<rparr>)) =
      [(0, 0, 0, 0), (1, 0, 0, 0), (0, 1, 0, 0), (1, 1, 0, 0)]"
    by (simp add: sequential_loops_def mtls_zero_def for_u32.simps x_loop.simps coords_def)
  have "visited (rsdScriptInvokeForEach \<lparr>mCount = 1, mInForEach = False\<rparr> \<lparr>isThreadable = True\<rparr>
     None (Some buf_2x2x4) None []) = [(0, 0, 0, 0), (1, 0, 0, 0), (0, 1, 0, 0), (1, 1, 0, 0)]"
    unfolding dispatch_resolved [OF r] by (simp add: visited_def s)
  moreover have "getDimZ buf_2x2x4 = 4" by (simp add: buf_2x2x4_def)
  moreover have "map_option resolved_ranges (resolve_launch None (Some buf_2x2x4) None) =
     Some ((0, 2), (0, 2), (0, 1), (0, 1))"
    by (simp add: r resolved_ranges_def mtls_zero_def)
  ultimately show ?thesis by simp
qed

text \<open>A 3 x 4 buffer: the clip with \<open>xStart = 2, xEnd = 0\<close> is dispatched as the one with
  \<open>xStart = 0, xEnd = 0\<close>.\<close>

theorem clip_end_zero_ignores_start_witness:
  "sc_xEnd (clip_of 2 0 0 0) = 0 \<and>
   rsdScriptInvokeForEach \<lparr>mCount = 1, mInForEach = False\<rparr> \<lparr>isThreadable = True\<rparr>
     None (Some buf_3x4) (Some (clip_of 0 0 0 0)) [] =
   rsdScriptInvokeForEach \<lparr>mCount = 1, mInForEach = False\<rparr> \<lparr>isThreadable = True\<rparr>
     None (Some buf_3x4) (Some (clip_of 2 0 0 0)) []"
proof -
  have e: "sc_xEnd (clip_of 2 0 0 0) = 0" by (simp add: clip_of_def)
  have u: "(clip_of 2 0 0 0)\<lparr>sc_xStart := 0\<rparr> = clip_of 0 0 0 0" by (simp add: clip_of_def)
  from clip_end_zero_ignores_start [OF launch_dims_buf_3x4, of "clip_of 2 0 0 0" _ _ 0 "[]"] e u
  show ?thesis by simp
qed

text \<open>C10 as stated fails on a one-dimensional buffer, whose \<open>dimY\<close> is 0: with \<open>yEnd = 0\<close>
  the Y range is \<open>[0, 1)\<close> and the kernel is invoked at \<open>y = 0\<close>, while \<open>[0, dimY)\<close> is
  empty.\<close>

theorem clip_end_zero_counterexample:
  "getDimY buf_1d = 0 \<and>
   map_option resolved_ranges (resolve_launch None (Some buf_1d) (Some (clip_of 0 0 1 0))) =
     Some ((0, 2), (0, 1), (0, 1), (0, 1)) \<and>
   visited (rsdScriptInvokeForEach \<lparr>mCount = 1, mInForEach = False\<rparr> \<lparr>isThreadable = True\<rparr>
     None (Some buf_1d) (Some (clip_of 0 0 1 0)) []) = [(0, 0, 0, 0), (1, 0, 0, 0)]"
proof -
  have r: "resolve_launch None (Some buf_1d) (Some (clip_of 0 0 1 0)) =
     Some (mtls_zero\<lparr>dimX := 2, xEnd := 2, yEnd := 1, zEnd := 1, arrayEnd := 1,
            mSliceSize := 10, ptrOut := 4096, eStrideOut := 1, yStrideOut := 2\<rparr>)"
    by (simp add: resolve_launch_def launch_dims_def clip_x_def clip_y_def floor_ends_def
      bind_buffers_def buf_1d_def mtls_zero_def clip_of_def)
  have s: "map coords (sequential_loops (mtls_zero\<lparr>dimX := 2, xEnd := 2, yEnd := 1, zEnd := 1, arrayEnd := 1,
            mSliceSize := 10, ptrOut := 4096, eStrideOut := 1, yStrideOut := 2\<rparr>)) =
      [(0, 0, 0, 0), (1, 0, 0, 0)]"
    by (simp add: sequential_loops_def mtls_zero_def for_u32.simps x_loop.simps coords_def)
  have "visited (rsdScriptInvokeForEach \<lparr>mCount = 1, mInForEach = False\<rparr> \<lparr>isThreadable = True\<rparr>
     None (Some buf_1d) (Some (clip_of 0 0 1 0)) []) = [(0, 0, 0, 0), (1, 0, 0, 0)]"
    unfolding dispatch_resolved [OF r] by (simp add: visited_def s)
  moreover have "getDimY buf_1d = 0" by (simp add: buf_1d_def)
  moreover have "map_option resolved_ranges (resolve_launch None (Some buf_1d) (Some (clip_of 0 0 1 0))) =
     Some ((0, 2), (0, 1), (0, 1), (0, 1))"
    by (simp add: r resolved_ranges_def mtls_zero_def)
  ultimately show ?thesis by simp
qed

subsection \<open>Empty ranges\<close>









subsection \<open>Slicing\<close>

lemma u32_add_no_wrap: "unat (a::u32) + unat b < 2 ^ 32 \<Longrightarrow> unat (a + b) = unat a + unat b"
  by (simp add: unat_word_ariths)

lemma slice_points_Nil [simp]: "slice_points [] = []"
  by (simp add: slice_points_def)

lemma slice_points_Cons [simp]: "slice_points ((s, e) # ss) = [unat s..<unat e] @ slice_points ss"
  by (simp add: slice_points_def)

lemma upt_split: "i \<le> j \<Longrightarrow> j \<le> k \<Longrightarrow> [i..<j] @ [j..<k] = [i..<k]"
  using upt_add_eq_append [of i j "k - j"] by simp

text \<open>The positions of the claimed slices, in order, are those of the range.\<close>

lemma slices_from_cover:
  assumes "sz \<noteq> 0" and "unat e + unat sz \<le> 2 ^ 32"
  shows "slice_points (slices_from sl sz a e) = [unat (a + sl * sz)..<unat e]"
  using assms
proof (induction sl sz a e rule: slices_from.induct)
  case (1 sl sz a e)
  define s where "s = a + sl * sz"
  have c: "claimNextSlice sl sz a e = (s, min (s + sz) e)"
    by (simp add: claimNextSlice_def Let_def s_def)
  have nx: "a + (sl + 1) * sz = s + sz" by (simp add: s_def algebra_simps)
  show ?case
  proof (cases "s < e")
    case False
    then have "min (s + sz) e \<le> s" by (simp add: not_less min.coboundedI2)
    moreover from False have "unat e \<le> unat s" by (simp add: word_less_nat_alt)
    ultimately show ?thesis
      by (simp add: slices_from.simps [of sl sz a e] c s_def [symmetric])
  next
    case True
    then have lt: "unat s < unat e" by (simp add: word_less_nat_alt)
    with "1.prems"(2) have nw: "unat s + unat sz < 2 ^ 32" by simp
    then have u: "unat (s + sz) = unat s + unat sz" by (rule u32_add_no_wrap)
    from "1.prems"(1) have szp: "0 < unat sz" by (simp add: unat_gt_0)
    with u have "s < s + sz" by (simp add: word_less_nat_alt)
    with True have ne: "\<not> min (s + sz) e \<le> s" by (simp add: min_def not_le)
    have ih: "slice_points (slices_from (sl + 1) sz a e) = [unat (s + sz)..<unat e]"
      using "1.IH" [OF c [symmetric] ne "1.prems"] by (simp only: nx)
    have "[unat s..<unat (min (s + sz) e)] @ [unat (s + sz)..<unat e] = [unat s..<unat e]"
    proof (cases "s + sz \<le> e")
      case True
      then have "unat s + unat sz \<le> unat e" using u by (simp add: word_le_nat_alt)
      with True u show ?thesis
        by (simp add: min_def upt_split)
    next
      case False
      then have "unat e \<le> unat s + unat sz" using u by (simp add: word_le_nat_alt)
      with False u show ?thesis by (simp add: min_def)
    qed
    with ne ih show ?thesis
      by (simp add: slices_from.simps [of sl sz a e] c s_def [symmetric])
  qed
qed

lemma slices_from_nonempty: "list_all (\<lambda>(s', e'). s' < e') (slices_from sl sz a e)"
proof (induction sl sz a e rule: slices_from.induct)
  case (1 sl sz a e)
  obtain s' e' where c: "claimNextSlice sl sz a e = (s', e')"
    by (cases "claimNextSlice sl sz a e")
  show ?case
  proof (cases "e' \<le> s'")
    case True
    with c show ?thesis by (simp add: slices_from.simps [of sl sz a e])
  next
    case False
    with c "1.IH" [OF c [symmetric] False] show ?thesis
      by (simp add: slices_from.simps [of sl sz a e] not_le)
  qed
qed

lemma slices_from_formula:
  assumes "sz \<noteq> 0" and "unat e + unat sz \<le> 2 ^ 32"
  shows "map (\<lambda>(s', e'). (unat s', unat e')) (slices_from sl sz a e) =
         map (\<lambda>i. (unat (a + sl * sz) + i * unat sz,
                    min (unat (a + sl * sz) + (i + 1) * unat sz) (unat e)))
           [0..<length (slices_from sl sz a e)]"
  using assms
proof (induction sl sz a e rule: slices_from.induct)
  case (1 sl sz a e)
  define s where "s = a + sl * sz"
  have c: "claimNextSlice sl sz a e = (s, min (s + sz) e)"
    by (simp add: claimNextSlice_def Let_def s_def)
  have nx: "a + (sl + 1) * sz = s + sz" by (simp add: s_def algebra_simps)
  show ?case
  proof (cases "min (s + sz) e \<le> s")
    case True
    then show ?thesis by (simp add: slices_from.simps [of sl sz a e] c)
  next
    case False
    then have "s < e" by (simp add: min_def not_le split: if_splits)
    then have lt: "unat s < unat e" by (simp add: word_less_nat_alt)
    with "1.prems"(2) have "unat s + unat sz < 2 ^ 32" by simp
    then have u: "unat (s + sz) = unat s + unat sz" by (rule u32_add_no_wrap)
    have m: "unat (min (s + sz) e) = min (unat s + unat sz) (unat e)"
      using u by (simp add: min_def word_le_nat_alt)
    have ih: "map (\<lambda>(s', e'). (unat s', unat e')) (slices_from (sl + 1) sz a e) =
         map (\<lambda>i. (unat (s + sz) + i * unat sz, min (unat (s + sz) + (i + 1) * unat sz) (unat e)))
           [0..<length (slices_from (sl + 1) sz a e)]"
      using "1.IH" [OF c [symmetric] False "1.prems"] by (simp only: nx)
    have sf: "slices_from sl sz a e = (s, min (s + sz) e) # slices_from (sl + 1) sz a e"
      using False by (simp add: slices_from.simps [of sl sz a e] c)
    have g: "(\<lambda>i. (unat s + Suc i * unat sz, min (unat s + (Suc i + 1) * unat sz) (unat e))) =
        (\<lambda>i. (unat (s + sz) + i * unat sz, min (unat (s + sz) + (i + 1) * unat sz) (unat e)))"
      by (simp add: u algebra_simps)
    show ?thesis
      unfolding sf s_def [symmetric]
      by (simp add: map_upt_Suc ih m u add.assoc del: upt_Suc)
  qed
qed

text \<open>C3 (amended). For every slice size \<open>sz \<ge> 1\<close> and every range \<open>[a, e)\<close> such that
  \<open>e + sz \<le> 2 ^ 32\<close> (so that no 32-bit sum of the loop head wraps), the slices claimed
  for the counter values 0, 1, 2, ... up to the first empty one are such that: their
  positions, one slice after the other, are exactly \<open>a, a + 1, ..., e - 1\<close> in this order,
  which makes them pairwise disjoint, increasing, and a cover of \<open>[a, e)\<close> without gaps;
  every one of them is non-empty; and slice \<open>i\<close> is
  \<open>[a + i * sz, min (a + (i + 1) * sz) e)\<close> in natural-number arithmetic.\<close>

theorem slices_partition:
  assumes "sz \<noteq> 0" and "unat e + unat sz \<le> 2 ^ 32"
  shows "slice_points (slices_from 0 sz a e) = [unat a..<unat e] \<and>
         list_all (\<lambda>(s', e'). s' < e') (slices_from 0 sz a e) \<and>
         map (\<lambda>(s', e'). (unat s', unat e')) (slices_from 0 sz a e) =
           map (\<lambda>i. (unat a + i * unat sz, min (unat a + (i + 1) * unat sz) (unat e)))
             [0..<length (slices_from 0 sz a e)]"
  using slices_from_cover [OF assms, of 0 a] slices_from_nonempty [of 0 sz a e]
    slices_from_formula [OF assms, of 0 a]
  by simp

lemma slices_from_example: "slices_from 0 3 2 10 = [(2, 5), (5, 8), (8, 10)]"
  by (simp add: slices_from.simps claimNextSlice_def)

text \<open>Slices of size 3 over \<open>[2, 10)\<close>.\<close>

theorem slices_partition_witness:
  "(3::u32) \<noteq> 0 \<and> unat (10::u32) + unat (3::u32) \<le> 2 ^ 32 \<and>
   slice_points (slices_from 0 3 2 10) = [2, 3, 4, 5, 6, 7, 8, 9]"
proof -
  have h: "(3::u32) \<noteq> 0" "unat (10::u32) + unat (3::u32) \<le> 2 ^ 32" by simp_all
  have "[unat (2::u32)..<unat (10::u32)] = [2, 3, 4, 5, 6, 7, 8, 9]"
    by (simp add: upt_rec)
  with slices_partition [OF h, of 2] h show ?thesis by simp
qed

text \<open>C3 as stated, for every slice size and every range, fails where the end of a slice
  wraps: for the slice size \<open>2 ^ 31\<close> and the range \<open>[0, 2 ^ 32 - 1)\<close> the second slice starts
  at \<open>2 ^ 31\<close> and its end \<open>2 ^ 31 + 2 ^ 31\<close> is 0 in 32 bits, so it counts as empty and the
  claiming stops with half of the range covered.\<close>

theorem slices_partition_counterexample:
  "slices_from 0 0x80000000 0 0xFFFFFFFF = [(0, 0x80000000)] \<and>
   length (slice_points (slices_from 0 0x80000000 0 0xFFFFFFFF)) = 2147483648 \<and>
   length [unat (0::u32)..<unat (0xFFFFFFFF::u32)] = 4294967295"
proof -
  have "slices_from 0 0x80000000 0 0xFFFFFFFF = [(0, 0x80000000)]"
    by (simp add: slices_from.simps claimNextSlice_def)
  then show ?thesis by simp
qed

subsection \<open>The loops in closed form\<close>

text \<open>A counted loop runs its body for the values of the range, in order.\<close>

lemma for_u32_closed: "for_u32 i n body = concat (map body (u32_range i n))"
proof (induction i n body rule: for_u32.induct)
  case (1 i n body)
  show ?case
  proof (cases "i < n")
    case True
    then have "unat i < unat n" by (simp add: word_less_nat_alt)
    then have "[unat i..<unat n] = unat i # [Suc (unat i)..<unat n]" by (simp add: upt_conv_Cons)
    with True 1 show ?thesis
      by (simp add: for_u32.simps [of i n] u32_less_Suc u32_range_def)
  next
    case False
    then have "unat n \<le> unat i" by (simp add: word_less_nat_alt)
    with False show ?thesis by (simp add: for_u32.simps [of i n] u32_range_def)
  qed
qed

text \<open>The innermost loop: the \<open>k\<close>-th invocation is at \<open>x + k\<close>, with the pointers
  \<open>k\<close> element strides on.\<close>

lemma x_loop_closed:
  "x_loop eIn eOut y z ar x xe pin pout =
     map (\<lambda>k. KCall (pin + k * unat eIn) (pout + k * unat eOut) (x + of_nat k) y z ar)
       [0..<unat xe - unat x]"
proof (induction eIn eOut y z ar x xe pin pout rule: x_loop.induct)
  case (1 eIn eOut y z ar x xe pin pout)
  show ?case
  proof (cases "x < xe")
    case True
    then have lt: "unat x < unat xe" by (simp add: word_less_nat_alt)
    then have n: "unat xe - unat x = Suc (unat xe - unat (x + 1))"
      using u32_less_Suc [OF True] by simp
    have "x_loop eIn eOut y z ar x xe pin pout =
        KCall pin pout x y z ar #
        map (\<lambda>k. KCall (pin + unat eIn + k * unat eIn) (pout + unat eOut + k * unat eOut)
                (x + 1 + of_nat k) y z ar) [0..<unat xe - unat (x + 1)]"
      using True "1.IH" [OF True] by (simp add: x_loop.simps [of eIn eOut y z ar x xe])
    also have "\<dots> = map (\<lambda>k. KCall (pin + k * unat eIn) (pout + k * unat eOut) (x + of_nat k) y z ar)
       [0..<Suc (unat xe - unat (x + 1))]"
      by (simp add: map_upt_Suc add.assoc del: upt_Suc)
    finally show ?thesis by (simp only: n)
  next
    case False
    then have "unat xe \<le> unat x" by (simp add: word_less_nat_alt)
    with False show ?thesis by (simp add: x_loop.simps [of eIn eOut y z ar x xe])
  qed
qed

lemma u32_add_of_nat: "unat (x::u32) + k < 2 ^ 32 \<Longrightarrow> x + of_nat k = of_nat (unat x + k)"
  by simp

lemma x_loop_coords:
  "map coords (x_loop eIn eOut y z ar x xe pin pout) = map (\<lambda>x'. (x', y, z, ar)) (u32_range x xe)"
proof -
  have "[unat x..<unat xe] = map (\<lambda>k. k + unat x) [0..<unat xe - unat x]"
    by (cases "unat x \<le> unat xe") (simp_all add: map_add_upt)
  then have "map (\<lambda>i. (of_nat i, y, z, ar)) [unat x..<unat xe] =
        map (\<lambda>k. (x + of_nat k, y, z, ar)) [0..<unat xe - unat x]"
    by (simp add: comp_def add.commute)
  then show ?thesis by (simp add: x_loop_closed coords_def u32_range_def comp_def)
qed

lemma u32_range_distinct: "distinct (u32_range a b)"
proof -
  have "inj_on (of_nat :: nat \<Rightarrow> u32) (set [unat a..<unat b])"
  proof (rule inj_onI)
    fix i j assume "i \<in> set [unat a..<unat b]" "j \<in> set [unat a..<unat b]"
      and e: "(of_nat i :: u32) = of_nat j"
    then have "i < unat b" "j < unat b" by simp_all
    moreover have "unat b < 2 ^ 32" using unsigned_less [of b] by simp
    ultimately have "i < 2 ^ 32" "j < 2 ^ 32" by simp_all
    moreover from e have "unat (of_nat i :: u32) = unat (of_nat j :: u32)" by simp
    ultimately show "i = j" by (simp add: unat_of_nat)
  qed
  then show ?thesis by (simp add: u32_range_def distinct_map)
qed

lemma u32_range_set: "set (u32_range a b) = {v. a \<le> v \<and> v < b}"
proof (rule set_eqI)
  fix v :: u32
  show "v \<in> set (u32_range a b) \<longleftrightarrow> v \<in> {v. a \<le> v \<and> v < b}"
  proof
    assume "v \<in> set (u32_range a b)"
    then obtain i where i: "unat a \<le> i" "i < unat b" "v = of_nat i"
      by (auto simp: u32_range_def)
    moreover have "unat b < 2 ^ 32" using unsigned_less [of b] by simp
    ultimately have "unat v = i" by (simp add: unat_of_nat)
    with i show "v \<in> {v. a \<le> v \<and> v < b}" by (simp add: word_le_nat_alt word_less_nat_alt)
  next
    assume "v \<in> {v. a \<le> v \<and> v < b}"
    then have "unat a \<le> unat v" "unat v < unat b" by (simp_all add: word_le_nat_alt word_less_nat_alt)
    then have "unat v \<in> set [unat a..<unat b]" by simp
    then have "of_nat (unat v) \<in> set (u32_range a b)" unfolding u32_range_def set_map
      by (rule imageI)
    then show "v \<in> set (u32_range a b)" by simp
  qed
qed

lemma domain_tuples_nested:
  "domain_tuples xs ys zs ars =
     concat (map (\<lambda>ar. concat (map (\<lambda>z. concat (map (\<lambda>y. map (\<lambda>x. (x, y, z, ar)) xs) ys)) zs)) ars)"
  by (simp add: domain_tuples_def product_concat_map map_concat comp_def)

text \<open>The sequential loops visit the tuples of the four ranges in loop order.\<close>

lemma sequential_loops_coords:
  "map coords (sequential_loops m) =
     domain_tuples (u32_range (xStart m) (xEnd m)) (u32_range (yStart m) (yEnd m))
       (u32_range (zStart m) (zEnd m)) (u32_range (arrayStart m) (arrayEnd m))"
  by (simp add: sequential_loops_def for_u32_closed domain_tuples_nested map_concat comp_def
      x_loop_coords Let_def)

lemma domain_tuples_distinct:
  assumes "distinct xs" "distinct ys" "distinct zs" "distinct ars"
  shows "distinct (domain_tuples xs ys zs ars)"
proof -
  have "inj (\<lambda>(ar, z, y, x). (x, y, z, ar))" by (auto simp: inj_on_def)
  then have "inj_on (\<lambda>(ar, z, y, x). (x, y, z, ar)) A" for A :: "('a \<times> 'b \<times> 'c \<times> 'd) set"
    by (rule inj_on_subset) simp
  with assms show ?thesis by (simp add: domain_tuples_def distinct_map distinct_product)
qed

lemma domain_tuples_set:
  "set (domain_tuples xs ys zs ars) = {(x, y, z, ar). x \<in> set xs \<and> y \<in> set ys \<and> z \<in> set zs \<and> ar \<in> set ars}"
  by (force simp: domain_tuples_def)

subsection \<open>The worker pool under every schedule\<close>

text \<open>One pass of a callback, in terms of the slice claimed at the counter.\<close>

lemma wc_claim_char:
  "wc_claim cb m =
     (if empty_slice (claim_at cb m (mSliceNum m)) then None
      else Some (cb_body cb m (claim_at cb m (mSliceNum m))),
      m\<lparr>mSliceNum := mSliceNum m + 1\<rparr>)"
  by (cases cb)
    (simp_all add: wc_claim_def wc_xy_claim_def wc_x_claim_def claim_at_def axis_start_def
      axis_end_def cb_body_def empty_slice_def Let_def split: prod.splits)

lemma counter_irrelevant [simp]:
  "claim_at cb (m\<lparr>mSliceNum := c\<rparr>) = claim_at cb m"
  "cb_body cb (m\<lparr>mSliceNum := c\<rparr>) = cb_body cb m"
  by (cases cb; simp add: claim_at_def axis_start_def axis_end_def cb_body_def wc_xy_body_def
      wc_x_body_def fun_eq_iff)+

lemma wc_run_unfold:
  "wc_run cb m =
     (case wc_claim cb m of
        (None, m') \<Rightarrow> ([], m')
      | (Some cs, m') \<Rightarrow> (case wc_run cb m' of (cs', m'') \<Rightarrow> (cs @ cs', m'')))"
  by (cases cb)
    (simp_all add: wc_run_def wc_claim_def wc_xy.simps [of m] wc_x.simps [of m]
      split: prod.splits option.splits)

text \<open>A callback running alone from the counter value \<open>c\<close> runs the slices up to the
  first empty claim \<open>k\<close> and leaves the counter at \<open>k + 1\<close>.\<close>

lemma wc_run_from:
  assumes "\<forall>j. c \<le> j \<and> j < k \<longrightarrow> \<not> empty_slice (claim_at cb m (of_nat j))"
    and "empty_slice (claim_at cb m (of_nat k))" and "c \<le> k"
  shows "wc_run cb (m\<lparr>mSliceNum := of_nat c\<rparr>) =
           (concat (map (\<lambda>j. cb_body cb m (claim_at cb m (of_nat j))) [c..<k]),
            m\<lparr>mSliceNum := of_nat (Suc k)\<rparr>)"
  using assms
proof (induction "k - c" arbitrary: c)
  case 0
  then have "c = k" by simp
  with "0.prems"(2) show ?case
    by (subst wc_run_unfold) (simp add: wc_claim_char)
next
  case (Suc d)
  then have lt: "c < k" by simp
  with Suc.prems(1) have ne: "\<not> empty_slice (claim_at cb m (of_nat c))" by simp
  have "wc_run cb (m\<lparr>mSliceNum := of_nat (Suc c)\<rparr>) =
           (concat (map (\<lambda>j. cb_body cb m (claim_at cb m (of_nat j))) [Suc c..<k]),
            m\<lparr>mSliceNum := of_nat (Suc k)\<rparr>)"
    using Suc.hyps(2) Suc.prems lt by (intro Suc.hyps(1)) auto
  with ne lt show ?case
    by (subst wc_run_unfold) (simp add: wc_claim_char upt_conv_Cons add.commute)
qed

lemma sum_list_update_add:
  fixes f :: "'a \<Rightarrow> 'b::comm_monoid_add"
  shows "w < length ws \<Longrightarrow> sum_list (map f (ws[w := x])) + f (ws ! w) = sum_list (map f ws) + f x"
proof (induction ws arbitrary: w)
  case Nil
  then show ?case by simp
next
  case (Cons a ws)
  show ?case
  proof (cases w)
    case 0
    then show ?thesis by (simp add: ac_simps)
  next
    case (Suc v)
    with Cons.prems have "v < length ws" by simp
    from Cons.IH [OF this] Suc show ?thesis by (simp add: ac_simps)
  qed
qed

lemma pool_invI:
  assumes "length ws = n" "m' = m\<lparr>mSliceNum := of_nat c\<rparr>"
    "c = min c k + sum_list (map returned ws)"
    "mset tr + sum_list (map pending ws) = mset (concat (map (slice_calls cb m) [0..<min c k]))"
  shows "pool_inv cb m n k (ws, m', tr)"
  using assms unfolding pool_inv_def by auto

lemma returned_lt:
  assumes "w < length ws" and "ws ! w \<noteq> Returned"
  shows "sum_list (map returned ws) < length ws"
  using assms
proof (induction ws arbitrary: w)
  case Nil
  then show ?case by simp
next
  case (Cons a ws)
  have le: "sum_list (map returned xs) \<le> length xs" for xs
  proof (induction xs)
    case Nil
    show ?case by simp
  next
    case (Cons x xs)
    then show ?case by (cases x) simp_all
  qed
  show ?case
  proof (cases w)
    case 0
    with Cons.prems have "returned a = 0" by (cases a) simp_all
    with le [of ws] show ?thesis by simp
  next
    case (Suc v)
    with Cons.prems have "sum_list (map returned ws) < length ws" by (intro Cons.IH [of v]) simp_all
    moreover have "returned a \<le> 1" by (cases a) simp_all
    ultimately show ?thesis by simp
  qed
qed

text \<open>Every step of every worker keeps the invariant.\<close>

lemma pool_step_inv:
  assumes ok: "claims_ok cb m n k" and inv: "pool_inv cb m n k p"
  shows "pool_inv cb m n k (pool_step cb w p)"
proof -
  obtain ws m' tr where p: "p = (ws, m', tr)" by (cases p)
  from inv p obtain c where len: "length ws = n" and m': "m' = m\<lparr>mSliceNum := of_nat c\<rparr>"
    and cnt: "c = min c k + sum_list (map returned ws)"
    and ms: "mset tr + sum_list (map pending ws) = mset (concat (map (slice_calls cb m) [0..<min c k]))"
    unfolding pool_inv_def by auto
  show ?thesis
  proof (cases "w < length ws")
    case False
    with inv p show ?thesis by (simp add: pool_step_def)
  next
    case w: True
    show ?thesis
    proof (cases "ws ! w")
      case Returned
      with inv p w show ?thesis by (simp add: pool_step_def)
    next
      case (Busy cs0)
      note r = sum_list_update_add [OF w, of returned]
      note q = sum_list_update_add [OF w, of pending]
      show ?thesis
      proof (cases cs0)
        case (Cons x cs)
        have st: "pool_step cb w p = (ws[w := Busy cs], m', tr @ [x])"
          using p w Busy Cons by (simp add: pool_step_def)
        have "sum_list (map returned (ws[w := Busy cs])) = sum_list (map returned ws)"
          using r [of "Busy cs"] Busy by simp
        moreover have pe: "sum_list (map pending ws) = sum_list (map pending (ws[w := Busy cs])) + {#x#}"
          using q [of "Busy cs"] Busy Cons by (simp add: ac_simps)
        have "mset (tr @ [x]) + sum_list (map pending (ws[w := Busy cs])) =
            mset (concat (map (slice_calls cb m) [0..<min c k]))"
          using ms by (simp add: pe)
        ultimately show ?thesis
          unfolding st using len m' cnt
          by (intro pool_invI [where c = c]) simp_all
      next
        case Nil
        from Busy have "ws ! w \<noteq> Returned" by simp
        from returned_lt [OF w this] len have rl: "sum_list (map returned ws) < n" by simp
        have m'': "m'\<lparr>mSliceNum := mSliceNum m' + 1\<rparr> = m\<lparr>mSliceNum := of_nat (Suc c)\<rparr>"
          by (simp add: m' add.commute)
        show ?thesis
        proof (cases "c < k")
          case True
          with ok have ne: "\<not> empty_slice (claim_at cb m (of_nat c))" by (simp add: claims_ok_def)
          have st: "pool_step cb w p =
              (ws[w := Busy (slice_calls cb m c)], m\<lparr>mSliceNum := of_nat (Suc c)\<rparr>, tr)"
            using p w Busy Nil ne m''
            by (simp add: pool_step_def wc_claim_char slice_calls_def m')
          have "sum_list (map returned (ws[w := Busy (slice_calls cb m c)])) = sum_list (map returned ws)"
            using r [of "Busy (slice_calls cb m c)"] Busy by simp
          moreover have "sum_list (map pending (ws[w := Busy (slice_calls cb m c)])) =
              sum_list (map pending ws) + mset (slice_calls cb m c)"
            using q [of "Busy (slice_calls cb m c)"] Busy Nil by simp
          moreover from True have "min (Suc c) k = Suc c" "min c k = c" by simp_all
          ultimately show ?thesis
            unfolding st using len cnt ms
            by (intro pool_invI [where c = "Suc c"]) (auto simp: ac_simps)
        next
          case False
          then have kc: "k \<le> c" by simp
          with cnt rl have "c < k + n" by simp
          with ok kc have e: "empty_slice (claim_at cb m (of_nat c))" by (simp add: claims_ok_def)
          have st: "pool_step cb w p = (ws[w := Returned], m\<lparr>mSliceNum := of_nat (Suc c)\<rparr>, tr)"
            using p w Busy Nil e m''
            by (simp add: pool_step_def wc_claim_char m')
          have "sum_list (map returned (ws[w := Returned])) = Suc (sum_list (map returned ws))"
            using r [of Returned] Busy by simp
          moreover have "sum_list (map pending (ws[w := Returned])) = sum_list (map pending ws)"
            using q [of Returned] Busy Nil by simp
          moreover from kc have "min (Suc c) k = k" "min c k = k" by simp_all
          ultimately show ?thesis
            unfolding st using len cnt ms
            by (intro pool_invI [where c = "Suc c"]) (auto simp: ac_simps)
        qed
      qed
    qed
  qed
qed

lemma pool_finish_returned:
  "w < length (fst p) \<Longrightarrow> fst (pool_finish cb w p) ! w = Returned"
  by (cases p) (auto simp: pool_finish_def split: wstate.splits prod.splits)

lemma pool_finish_keeps:
  "fst p ! v = Returned \<Longrightarrow> fst (pool_finish cb w p) ! v = Returned"
  by (cases p; cases "v = w")
    (auto simp: pool_finish_def split: wstate.splits prod.splits)

text \<open>So does a worker that runs to its return.\<close>

lemma pool_finish_inv:
  assumes ok: "claims_ok cb m n k" and inv: "pool_inv cb m n k p"
  shows "pool_inv cb m n k (pool_finish cb w p)"
proof -
  obtain ws m' tr where p: "p = (ws, m', tr)" by (cases p)
  from inv p obtain c where len: "length ws = n" and m': "m' = m\<lparr>mSliceNum := of_nat c\<rparr>"
    and cnt: "c = min c k + sum_list (map returned ws)"
    and ms: "mset tr + sum_list (map pending ws) = mset (concat (map (slice_calls cb m) [0..<min c k]))"
    unfolding pool_inv_def by auto
  show ?thesis
  proof (cases "w < length ws")
    case False
    with inv p show ?thesis by (simp add: pool_finish_def)
  next
    case w: True
    show ?thesis
    proof (cases "ws ! w")
      case Returned
      with inv p w show ?thesis by (simp add: pool_finish_def)
    next
      case (Busy cs)
      note r = sum_list_update_add [OF w, of returned]
      note q = sum_list_update_add [OF w, of pending]
      from Busy have "ws ! w \<noteq> Returned" by simp
      from returned_lt [OF w this] len have rl: "sum_list (map returned ws) < n" by simp
      define k' where "k' = max c k"
      have ck: "c \<le> k'" "k \<le> k'" by (simp_all add: k'_def)
      from cnt rl have "k' < k + n" by (auto simp: k'_def max_def min_def split: if_splits)
      with ok ck have e: "empty_slice (claim_at cb m (of_nat k'))" by (simp add: claims_ok_def)
      have ne: "\<forall>j. c \<le> j \<and> j < k' \<longrightarrow> \<not> empty_slice (claim_at cb m (of_nat j))"
        using ok by (auto simp: claims_ok_def k'_def max_def split: if_splits)
      have run: "wc_run cb m' =
          (concat (map (slice_calls cb m) [c..<k']), m\<lparr>mSliceNum := of_nat (Suc k')\<rparr>)"
        unfolding m' slice_calls_def by (rule wc_run_from [OF ne e ck(1)])
      have st: "pool_finish cb w p =
          (ws[w := Returned], m\<lparr>mSliceNum := of_nat (Suc k')\<rparr>,
           tr @ cs @ concat (map (slice_calls cb m) [c..<k']))"
        using p w Busy run by (simp add: pool_finish_def)
      have r': "sum_list (map returned (ws[w := Returned])) = Suc (sum_list (map returned ws))"
        using r [of Returned] Busy by simp
      have q': "sum_list (map pending ws) = sum_list (map pending (ws[w := Returned])) + mset cs"
        using q [of Returned] Busy by simp
      have mk: "min (Suc k') k = k" using ck by simp
      have c1: "Suc k' = min (Suc k') k + sum_list (map returned (ws[w := Returned]))"
        using cnt by (auto simp: r' mk k'_def max_def min_def split: if_splits)
      have "[0..<k] = [0..<min c k] @ [c..<k']"
      proof (cases "c \<le> k")
        case True
        then show ?thesis by (simp add: k'_def max_def min_def upt_split)
      next
        case False
        then show ?thesis by (simp add: k'_def max_def min_def)
      qed
      then have "mset (concat (map (slice_calls cb m) [0..<k])) =
          mset (concat (map (slice_calls cb m) [0..<min c k])) +
          mset (concat (map (slice_calls cb m) [c..<k']))"
        by simp
      then have "mset (concat (map (slice_calls cb m) [0..<k])) =
          (mset tr + sum_list (map pending ws)) + mset (concat (map (slice_calls cb m) [c..<k']))"
        by (simp only: ms)
      also have "\<dots> = mset (tr @ cs @ concat (map (slice_calls cb m) [c..<k'])) +
          sum_list (map pending (ws[w := Returned]))"
        by (simp add: q' add_ac)
      finally have c2: "mset (tr @ cs @ concat (map (slice_calls cb m) [c..<k'])) +
          sum_list (map pending (ws[w := Returned])) =
          mset (concat (map (slice_calls cb m) [0..<min (Suc k') k]))"
        by (simp only: mk)
      show ?thesis
        unfolding st using len c1 c2 by (intro pool_invI [where c = "Suc k'"]) simp_all
    qed
  qed
qed

lemma fold_step_inv:
  assumes "claims_ok cb m n k" and "pool_inv cb m n k p"
  shows "pool_inv cb m n k (fold (pool_step cb) sched p)"
  using assms(2)
  by (induction sched arbitrary: p) (simp_all add: pool_step_inv [OF assms(1)])

lemma fold_finish_inv:
  assumes "claims_ok cb m n k" and "pool_inv cb m n k p"
  shows "pool_inv cb m n k (fold (pool_finish cb) [0..<i] p) \<and>
         (\<forall>w<i. w < n \<longrightarrow> fst (fold (pool_finish cb) [0..<i] p) ! w = Returned)"
proof (induction i)
  case 0
  with assms(2) show ?case by simp
next
  case (Suc i)
  let ?q = "fold (pool_finish cb) [0..<i] p"
  from Suc have inv: "pool_inv cb m n k ?q" and ret: "\<forall>w<i. w < n \<longrightarrow> fst ?q ! w = Returned"
    by simp_all
  have len: "length (fst ?q) = n" using inv by (cases ?q) (simp add: pool_inv_def)
  have "fst (pool_finish cb i ?q) ! w = Returned" if "w < Suc i" "w < n" for w
  proof (cases "w = i")
    case True
    with that len show ?thesis by (simp add: pool_finish_returned)
  next
    case False
    with that ret show ?thesis by (simp add: pool_finish_keeps)
  qed
  with pool_finish_inv [OF assms(1) inv, of i] show ?case by simp
qed

lemma sum_list_replicate_empty: "sum_list (replicate j ({#} :: 'a multiset)) = {#}"
  by (induction j) simp_all

lemma all_returned:
  assumes "\<forall>w<length ws. ws ! w = Returned"
  shows "sum_list (map returned ws) = length ws \<and> sum_list (map pending ws) = {#}"
proof -
  from assms have "ws = replicate (length ws) Returned"
    by (simp add: list_eq_iff_nth_eq)
  then obtain j where "ws = replicate j Returned" ..
  then show ?thesis by (simp add: sum_list_replicate sum_list_replicate_empty)
qed

text \<open>Whatever the schedule, a launch makes the kernel invocations of the \<open>k\<close>
  non-empty slices, each slice once, and leaves the counter at \<open>k + n\<close>.\<close>

lemma rsdLaunchThreads_mset:
  assumes ok: "claims_ok cb m n k" and n: "0 < n" and z: "mSliceNum m = 0"
  shows "mset (fst (rsdLaunchThreads cb n sched m)) =
           mset (concat (map (slice_calls cb m) [0..<k])) \<and>
         snd (rsdLaunchThreads cb n sched m) = m\<lparr>mSliceNum := of_nat (k + n)\<rparr>"
proof -
  let ?p0 = "(replicate n (Busy []), m, [])"
  have "m = m\<lparr>mSliceNum := of_nat 0\<rparr>" using z [symmetric] by simp
  then have "pool_inv cb m n k ?p0"
    by (intro pool_invI [where c = 0]) (simp_all add: sum_list_replicate sum_list_replicate_empty)
  then have inv1: "pool_inv cb m n k (fold (pool_step cb) sched ?p0)"
    by (rule fold_step_inv [OF ok])
  obtain ws m' tr where f: "fold (pool_finish cb) [0..<n] (fold (pool_step cb) sched ?p0) = (ws, m', tr)"
    by (cases "fold (pool_finish cb) [0..<n] (fold (pool_step cb) sched ?p0)")
  from fold_finish_inv [OF ok inv1, of n] f
  have inv: "pool_inv cb m n k (ws, m', tr)" and ret: "\<forall>w<n. ws ! w = Returned" by simp_all
  from inv obtain c where len: "length ws = n" and m': "m' = m\<lparr>mSliceNum := of_nat c\<rparr>"
    and cnt: "c = min c k + sum_list (map returned ws)"
    and ms: "mset tr + sum_list (map pending ws) = mset (concat (map (slice_calls cb m) [0..<min c k]))"
    unfolding pool_inv_def by auto
  from all_returned [of ws] ret len
  have "sum_list (map returned ws) = n" "sum_list (map pending ws) = {#}" by simp_all
  with cnt n ms have "c = k + n" "mset tr = mset (concat (map (slice_calls cb m) [0..<k]))"
    by (auto simp: min_def split: if_splits)
  with f m' show ?thesis by (simp add: rsdLaunchThreads_def)
qed

lemma pos_no_wrap:
  assumes "unat (a::u32) + j * unat (S::u32) < 2 ^ 32" and "S \<noteq> 0"
  shows "unat (a + of_nat j * S) = unat a + j * unat S"
proof -
  from assms(2) have "0 < unat S" by (simp add: unat_gt_0)
  then have "j \<le> j * unat S" by (cases "unat S") simp_all
  also have "\<dots> \<le> unat a + j * unat S" by simp
  also note assms(1)
  finally have j: "j < 2 ^ 32" .
  then have "unat (of_nat j :: u32) = j" by (simp add: unat_of_nat)
  moreover from assms(1) have "j * unat S < 2 ^ 32" by simp
  ultimately have "unat (of_nat j * S) = j * unat S" by (simp add: unat_word_ariths)
  with assms(1) show ?thesis by (simp add: unat_word_ariths)
qed

lemma claim_nonempty_nat:
  assumes "S \<noteq> 0" and "unat a + j * unat S < unat E" and "unat E + unat S \<le> 2 ^ 32"
  shows "\<not> empty_slice (claimNextSlice (of_nat j) S a E)"
proof -
  have "unat E < 2 ^ 32" using unsigned_less [of E] by simp
  with assms(2) have "unat a + j * unat S < 2 ^ 32" by simp
  then have s: "unat (a + of_nat j * S) = unat a + j * unat S" using assms(1) by (rule pos_no_wrap)
  with assms(2,3) have "unat (a + of_nat j * S) + unat S < 2 ^ 32" by simp
  then have "unat (a + of_nat j * S + S) = unat (a + of_nat j * S) + unat S"
    by (rule u32_add_no_wrap)
  moreover from assms(1) have "0 < unat S" by (simp add: unat_gt_0)
  ultimately have "a + of_nat j * S < a + of_nat j * S + S" by (simp add: word_less_nat_alt)
  moreover from s assms(2) have "a + of_nat j * S < E" by (simp add: word_less_nat_alt)
  ultimately show ?thesis
    by (simp add: empty_slice_def claimNextSlice_def Let_def min_def not_le)
qed

lemma claim_empty_nat:
  assumes "S \<noteq> 0" and "unat E \<le> unat a + j * unat S" and "unat a + j * unat S < 2 ^ 32"
  shows "empty_slice (claimNextSlice (of_nat j) S a E)"
proof -
  from assms(3,1) have "unat (a + of_nat j * S) = unat a + j * unat S" by (rule pos_no_wrap)
  with assms(2) have "E \<le> a + of_nat j * S" by (simp add: word_le_nat_alt)
  then show ?thesis
    by (simp add: empty_slice_def claimNextSlice_def Let_def min.coboundedI2)
qed

text \<open>Where the slice bounds of the claims that are made do not wrap, the claims are
  non-empty up to some \<open>k\<close> and empty from there.\<close>

lemma claims_ok_exists:
  assumes S: "mSliceSize m \<noteq> 0" and ae: "axis_start cb m \<le> axis_end cb m" and n: "0 < n"
    and nw: "unat (axis_end cb m) + n * unat (mSliceSize m) \<le> 2 ^ 32"
  shows "\<exists>k. claims_ok cb m n k"
proof -
  define a E sz where "a = unat (axis_start cb m)" and "E = unat (axis_end cb m)"
    and "sz = unat (mSliceSize m)"
  have sz: "0 < sz" using S by (simp add: sz_def unat_gt_0)
  have aE: "a \<le> E" using ae by (simp add: a_def E_def word_le_nat_alt)
  have nw1: "E + sz \<le> 2 ^ 32"
  proof -
    have "E + sz \<le> E + n * sz" using n by (cases n) simp_all
    also have "\<dots> \<le> 2 ^ 32" using nw by (simp add: E_def sz_def)
    finally show ?thesis .
  qed
  define k where "k = (LEAST j. E \<le> a + j * sz)"
  have "E \<le> a + E * sz" using sz by (simp add: trans_le_add2)
  then have k1: "E \<le> a + k * sz" unfolding k_def by (rule LeastI)
  have k2: "a + j * sz < E" if "j < k" for j
    using not_less_Least [of j "\<lambda>j. E \<le> a + j * sz"] that by (simp add: k_def not_le)
  have k3: "a + k * sz < E + sz"
  proof (cases k)
    case 0
    with aE sz show ?thesis by simp
  next
    case (Suc i)
    with k2 [of i] show ?thesis by simp
  qed
  have "\<not> empty_slice (claim_at cb m (of_nat j))" if "j < k" for j
    unfolding claim_at_def using S k2 [OF that] nw1
    by (intro claim_nonempty_nat) (simp_all add: a_def E_def sz_def)
  moreover have "empty_slice (claim_at cb m (of_nat j))" if "k \<le> j" "j < k + n" for j
  proof -
    from that obtain d where d: "j = k + d" "d < n" by (metis add_less_cancel_left le_Suc_ex)
    then have "d * sz + sz \<le> n * sz" by (metis Suc_leI mult_Suc mult_le_mono1 add.commute)
    with k3 d nw have "a + j * sz < 2 ^ 32" by (simp add: algebra_simps E_def sz_def)
    moreover from k1 d have "E \<le> a + j * sz" by (simp add: algebra_simps)
    ultimately show ?thesis
      unfolding claim_at_def using S
      by (intro claim_empty_nat) (simp_all add: a_def E_def sz_def)
  qed
  ultimately show ?thesis unfolding claims_ok_def by blast
qed

lemma slices_from_upto:
  assumes "\<forall>j<k. \<not> empty_slice (claimNextSlice (sl + of_nat j) S a E)"
    and "empty_slice (claimNextSlice (sl + of_nat k) S a E)"
  shows "slices_from sl S a E = map (\<lambda>j. claimNextSlice (sl + of_nat j) S a E) [0..<k]"
  using assms
proof (induction k arbitrary: sl)
  case 0
  then show ?case
    by (cases "claimNextSlice sl S a E") (simp add: slices_from.simps [of sl] empty_slice_def)
next
  case (Suc k)
  from Suc.prems(1) have ne: "\<not> empty_slice (claimNextSlice sl S a E)" by force
  have "slices_from (sl + 1) S a E = map (\<lambda>j. claimNextSlice (sl + 1 + of_nat j) S a E) [0..<k]"
  proof (rule Suc.IH)
    show "\<forall>j<k. \<not> empty_slice (claimNextSlice (sl + 1 + of_nat j) S a E)"
      using Suc.prems(1) by (auto simp: add.assoc dest: Suc_mono)
    show "empty_slice (claimNextSlice (sl + 1 + of_nat k) S a E)"
      using Suc.prems(2) by (simp add: add.assoc)
  qed
  with ne show ?case
    by (cases "claimNextSlice sl S a E")
      (simp add: slices_from.simps [of sl] empty_slice_def map_upt_Suc add.assoc del: upt_Suc)
qed

lemma claims_ok_slices:
  assumes "claims_ok cb m n k" and "0 < n"
  shows "slices_from 0 (mSliceSize m) (axis_start cb m) (axis_end cb m) =
           map (\<lambda>j. claim_at cb m (of_nat j)) [0..<k]"
proof -
  from assms have "\<forall>j<k. \<not> empty_slice (claim_at cb m (of_nat j))"
    "empty_slice (claim_at cb m (of_nat k))"
    by (simp_all add: claims_ok_def)
  then show ?thesis
    unfolding claim_at_def
    using slices_from_upto [of k 0 "mSliceSize m" "axis_start cb m" "axis_end cb m"] by simp
qed

text \<open>A launch of \<open>n\<close> workers, under every schedule: the kernel invocations are those
  of the slices of the sliced range, each slice run once by the callback. The last
  hypothesis keeps the slice bounds of all claims (the \<open>n\<close> empty ones included) below
  \<open>2 ^ 32\<close>.\<close>

lemma launch_mset:
  assumes "mSliceNum m = 0" and "0 < n" and "mSliceSize m \<noteq> 0"
    and "axis_start cb m \<le> axis_end cb m"
    and "unat (axis_end cb m) + n * unat (mSliceSize m) \<le> 2 ^ 32"
  shows "mset (fst (rsdLaunchThreads cb n sched m)) =
           mset (concat (map (cb_body cb m)
             (slices_from 0 (mSliceSize m) (axis_start cb m) (axis_end cb m))))"
proof -
  from claims_ok_exists [OF assms(3,4,2,5)] obtain k where ok: "claims_ok cb m n k" ..
  have "map (slice_calls cb m) [0..<k] =
      map (cb_body cb m) (slices_from 0 (mSliceSize m) (axis_start cb m) (axis_end cb m))"
    by (simp add: claims_ok_slices [OF ok assms(2)] slice_calls_def comp_def)
  with rsdLaunchThreads_mset [OF ok assms(2,1), of sched] show ?thesis by simp
qed

subsection \<open>The tuples a dispatch visits\<close>

lemma wc_xy_body_coords:
  "map coords (wc_xy_body m s e) =
     concat (map (\<lambda>y. map (\<lambda>x. (x, y, 0, 0)) (u32_range (xStart m) (xEnd m))) (u32_range s e))"
  by (simp add: wc_xy_body_def for_u32_closed map_concat comp_def x_loop_coords)

lemma wc_x_body_coords:
  "map coords (wc_x_body m s e) = map (\<lambda>x. (x, 0, 0, 0)) (u32_range (xStart m) (xEnd m))"
  by (simp add: wc_x_body_def x_loop_coords)

lemma u32_range_0_1: "u32_range 0 1 = [0]"
  by (simp add: u32_range_def)

lemma domain_tuples_plane:
  "domain_tuples xs ys [0] [0] = concat (map (\<lambda>y. map (\<lambda>x. (x, y, 0, 0)) xs) ys)"
  by (simp add: domain_tuples_nested)

lemma slices_ranges:
  "concat (map (\<lambda>se. u32_range (fst se) (snd se)) ss) = map of_nat (slice_points ss)"
  by (induction ss) (auto simp: u32_range_def)

lemma concat_map_concat_map:
  "concat (map (\<lambda>s. concat (map f (g s))) ss) = concat (map f (concat (map g ss)))"
  by (induction ss) simp_all

text \<open>Run over the slices of the Y range, \<^verbatim>\<open>wc_xy\<close> visits the X-Y plane of the
  domain, each tuple once.\<close>

lemma y_slices_coords:
  assumes "sz \<noteq> 0" and "unat (yEnd m) + unat sz \<le> 2 ^ 32"
  shows "map coords (concat (map (cb_body WC_XY m) (slices_from 0 sz (yStart m) (yEnd m)))) =
           domain_tuples (u32_range (xStart m) (xEnd m)) (u32_range (yStart m) (yEnd m)) [0] [0]"
proof -
  let ?row = "\<lambda>y. map (\<lambda>x. (x, y, 0, 0)) (u32_range (xStart m) (xEnd m))"
  let ?ss = "slices_from 0 sz (yStart m) (yEnd m)"
  have "map coords (concat (map (cb_body WC_XY m) ?ss)) =
      concat (map (\<lambda>se. concat (map ?row (u32_range (fst se) (snd se)))) ?ss)"
    by (simp add: map_concat comp_def cb_body_def wc_xy_body_coords)
  also have "\<dots> = concat (map ?row (concat (map (\<lambda>se. u32_range (fst se) (snd se)) ?ss)))"
    by (rule concat_map_concat_map)
  also have "concat (map (\<lambda>se. u32_range (fst se) (snd se)) ?ss) =
      u32_range (yStart m) (yEnd m)"
  proof -
    have "slice_points ?ss = [unat (yStart m)..<unat (yEnd m)]"
      using slices_from_cover [OF assms, of 0 "yStart m"] by simp
    then show ?thesis by (simp only: slices_ranges u32_range_def [of "yStart m" "yEnd m"])
  qed
  finally show ?thesis by (simp add: domain_tuples_plane)
qed

text \<open>Run over slices of the X range, \<^verbatim>\<open>wc_x\<close> visits the whole X range once for
  every slice.\<close>

lemma x_slices_coords:
  "map coords (concat (map (cb_body WC_X m) ss)) =
     concat (replicate (length ss) (map (\<lambda>x. (x, 0, 0, 0)) (u32_range (xStart m) (xEnd m))))"
  by (induction ss) (simp_all add: cb_body_def wc_x_body_coords)

text \<open>With fewer than \<open>2 ^ 30\<close> workers and a dimension below \<open>2 ^ 31\<close>, the slice
  bounds of all claims stay below \<open>2 ^ 32\<close>.\<close>

lemma slice_budget:
  fixes n D E sz :: nat
  assumes "n < 2 ^ 30" and "D < 2 ^ 31" and "E \<le> max 1 D" and "sz = max 1 (D div (n * 4))"
  shows "E + n * sz \<le> 2 ^ 32"
proof -
  have "(n * 4) * (D div (n * 4)) \<le> D" by (rule times_div_less_eq_dividend)
  then have "n * (D div (n * 4)) \<le> D" by (simp add: algebra_simps)
  then have "n * sz \<le> max n D" using assms(4) by (auto simp: max_def)
  also have "max n D < 2 ^ 31" using assms(1,2) by simp
  finally have a: "n * sz < 2 ^ 31" .
  have b: "E < 2 ^ 31" using assms(2,3) by (simp add: max_def split: if_splits)
  from add_strict_mono [OF b a] show ?thesis by simp
qed

text \<open>The clamped domain has no tuple twice, and holds the tuples within the four
  ranges.\<close>

lemma resolved_domain_distinct: "distinct (resolved_domain m)"
  by (simp add: resolved_domain_def domain_tuples_distinct u32_range_distinct)

lemma resolved_domain_set:
  "set (resolved_domain m) =
     {(x, y, z, ar). xStart m \<le> x \<and> x < xEnd m \<and> yStart m \<le> y \<and> y < yEnd m \<and>
        zStart m \<le> z \<and> z < zEnd m \<and> arrayStart m \<le> ar \<and> ar < arrayEnd m}"
  by (auto simp: resolved_domain_def domain_tuples_set u32_range_set)

lemma bind_buffers_counter [simp]: "mSliceNum (bind_buffers ain aout m) = 0"
  by (simp add: bind_buffers_def Let_def split: option.splits)

lemma resolve_launch_counter: "resolve_launch ain aout sc = Some mtls \<Longrightarrow> mSliceNum mtls = 0"
  by (erule resolve_launch_SomeD) simp

lemma clip_x_end_le: "clip_x sc m = Some m' \<Longrightarrow> xEnd m' \<le> dimX m'"
  by (auto simp: clip_x_def Let_def split: option.splits if_splits)

lemma clip_y_end_le: "clip_y sc m = Some m' \<Longrightarrow> yEnd m' \<le> dimY m'"
  by (auto simp: clip_y_def Let_def split: option.splits if_splits)

lemma u32_max1_mono: "(a::u32) \<le> b \<Longrightarrow> unat (max 1 a) \<le> max 1 (unat b)"
  by (auto simp: max_def word_le_nat_alt)

lemma resolve_launch_end_le:
  assumes "resolve_launch ain aout sc = Some mtls"
  shows "unat (xEnd mtls) \<le> max 1 (unat (dimX mtls))" "unat (yEnd mtls) \<le> max 1 (unat (dimY mtls))"
proof -
  from assms obtain m1 m2 m3 where
    2: "clip_x sc m1 = Some m2" and 3: "clip_y sc m2 = Some m3" and
    m: "mtls = bind_buffers ain aout (floor_ends m3)"
    by (rule resolve_launch_SomeD)
  from clip_x_end_le [OF 2] clip_y_keeps(2,7) [OF 3] have "xEnd m3 \<le> dimX m3" by simp
  from u32_max1_mono [OF this] show "unat (xEnd mtls) \<le> max 1 (unat (dimX mtls))"
    by (simp add: m)
  from u32_max1_mono [OF clip_y_end_le [OF 3]] show "unat (yEnd mtls) \<le> max 1 (unat (dimY mtls))"
    by (simp add: m)
qed

text \<open>The sequential path visits exactly the clamped domain, each tuple once, in the
  order array, z, y, x.\<close>

lemma sequential_coverage:
  assumes "resolve_launch ain aout sc = Some mtls"
    and "\<not> (1 < mCount dc \<and> isThreadable s \<and> \<not> mInForEach dc)"
  shows "visited (rsdScriptInvokeForEach dc s ain aout sc sched) = resolved_domain mtls"
  by (simp only: dispatch_resolved [OF assms(1)] if_not_P [OF assms(2)])
    (simp add: visited_def sequential_loops_coords resolved_domain_def)

lemma visited_invocations: "visited r = map coords (invocations r)"
  by (simp add: visited_def invocations_def split: sum.splits)

lemma parallel_launch_invocations:
  assumes sz: "computeSliceSize d (mCount dc) = Inr sz"
  shows "invocations (parallel_launch dc cb d sched mtls) =
           fst (rsdLaunchThreads cb (unat (mCount dc)) sched (mtls\<lparr>mSliceSize := sz\<rparr>))"
  by (simp add: parallel_launch_def sz invocations_def Let_def)

text \<open>The kernel invocations of the parallel path, under every schedule, with fewer
  than \<open>2 ^ 30\<close> workers and a sliced dimension below \<open>2 ^ 31\<close>.\<close>

lemma parallel_launch_calls:
  assumes r: "resolve_launch ain aout sc = Some mtls"
    and n: "1 < mCount dc" "unat (mCount dc) < 2 ^ 30"
    and d: "unat d < 2 ^ 31" "unat (axis_end cb mtls) \<le> max 1 (unat d)"
    and ae: "axis_start cb mtls \<le> axis_end cb mtls"
  shows "\<exists>sz. sz \<noteq> 0 \<and> computeSliceSize d (mCount dc) = Inr sz \<and>
           unat (axis_end cb mtls) + unat sz \<le> 2 ^ 32 \<and>
           mset (invocations (parallel_launch dc cb d sched mtls)) =
             mset (concat (map (cb_body cb (mtls\<lparr>mSliceSize := sz\<rparr>))
               (slices_from 0 sz (axis_start cb mtls) (axis_end cb mtls))))"
proof -
  from n(1) have n1: "1 \<le> unat (mCount dc)" by (simp add: word_less_nat_alt)
  from computeSliceSize_nat [OF n1 n(2), of d] obtain sz where
    sz: "computeSliceSize d (mCount dc) = Inr sz"
        "unat sz = max 1 (unat d div (unat (mCount dc) * 4))"
    by blast
  then have sz0: "sz \<noteq> 0" by (auto simp: unat_eq_zero [symmetric] simp del: unat_eq_zero)
  let ?m = "mtls\<lparr>mSliceSize := sz\<rparr>"
  have ax: "axis_start cb ?m = axis_start cb mtls" "axis_end cb ?m = axis_end cb mtls"
    by (cases cb; simp add: axis_start_def axis_end_def)+
  have nw: "unat (axis_end cb mtls) + unat (mCount dc) * unat sz \<le> 2 ^ 32"
    using n(2) d sz(2) by (rule slice_budget)
  have "unat sz \<le> unat (mCount dc) * unat sz" using n1 by simp
  with nw have nw1: "unat (axis_end cb mtls) + unat sz \<le> 2 ^ 32" by linarith
  have "mset (fst (rsdLaunchThreads cb (unat (mCount dc)) sched ?m)) =
      mset (concat (map (cb_body cb ?m)
        (slices_from 0 (mSliceSize ?m) (axis_start cb ?m) (axis_end cb ?m))))"
    using resolve_launch_counter [OF r] n1 sz0 ae nw
    by (intro launch_mset) (simp_all add: ax)
  then have "mset (invocations (parallel_launch dc cb d sched mtls)) =
      mset (concat (map (cb_body cb ?m)
        (slices_from 0 sz (axis_start cb mtls) (axis_end cb mtls))))"
    by (simp add: parallel_launch_invocations [OF sz(1)] ax)
  with sz(1) sz0 nw1 show ?thesis by blast
qed

lemma parallel_launch_mset:
  assumes r: "resolve_launch ain aout sc = Some mtls"
    and n: "1 < mCount dc" "unat (mCount dc) < 2 ^ 30"
    and d: "unat d < 2 ^ 31" "unat (axis_end cb mtls) \<le> max 1 (unat d)"
    and ae: "axis_start cb mtls \<le> axis_end cb mtls"
  shows "\<exists>sz. sz \<noteq> 0 \<and> computeSliceSize d (mCount dc) = Inr sz \<and>
           unat (axis_end cb mtls) + unat sz \<le> 2 ^ 32 \<and>
           mset (visited (parallel_launch dc cb d sched mtls)) =
             mset (map coords (concat (map (cb_body cb (mtls\<lparr>mSliceSize := sz\<rparr>))
               (slices_from 0 sz (axis_start cb mtls) (axis_end cb mtls)))))"
proof -
  from parallel_launch_calls [OF assms, of sched] obtain sz where
    sz: "sz \<noteq> 0" "computeSliceSize d (mCount dc) = Inr sz"
      "unat (axis_end cb mtls) + unat sz \<le> 2 ^ 32"
      "mset (invocations (parallel_launch dc cb d sched mtls)) =
         mset (concat (map (cb_body cb (mtls\<lparr>mSliceSize := sz\<rparr>))
           (slices_from 0 sz (axis_start cb mtls) (axis_end cb mtls))))"
    by blast
  from sz(4) have "mset (visited (parallel_launch dc cb d sched mtls)) =
      mset (map coords (concat (map (cb_body cb (mtls\<lparr>mSliceSize := sz\<rparr>))
        (slices_from 0 sz (axis_start cb mtls) (axis_end cb mtls)))))"
    unfolding visited_invocations by (simp only: mset_map)
  with sz(1-3) show ?thesis by blast
qed

lemma resolved_domain_plane:
  assumes "resolve_launch ain aout sc = Some mtls"
  shows "resolved_domain mtls =
           domain_tuples (u32_range (xStart mtls) (xEnd mtls)) (u32_range (yStart mtls) (yEnd mtls))
             [0] [0]"
  using resolve_launch_ranges [OF assms] by (simp add: resolved_domain_def u32_range_0_1)

lemma flat_y_range:
  assumes "resolve_launch ain aout sc = Some mtls" and "\<not> 1 < dimY mtls"
  shows "u32_range (yStart mtls) (yEnd mtls) = [0]"
proof -
  from assms(2) have "unat (dimY mtls) \<le> 1" by (simp add: word_less_nat_alt)
  with resolve_launch_end_le(2) [OF assms(1)] have "unat (yEnd mtls) \<le> 1" by simp
  moreover from resolve_launch_ranges [OF assms(1)] have "unat (yStart mtls) < unat (yEnd mtls)"
    by (simp add: word_less_nat_alt)
  ultimately have "unat (yStart mtls) = 0" "unat (yEnd mtls) = 1" by simp_all
  then show ?thesis by (simp add: u32_range_def)
qed

text \<open>The parallel path that slices Y visits exactly the clamped domain, each tuple
  once, under every schedule.\<close>

lemma y_sliced_coverage:
  assumes r: "resolve_launch ain aout sc = Some mtls"
    and par: "1 < mCount dc" "isThreadable s" "\<not> mInForEach dc"
    and y: "1 < dimY mtls"
    and b: "unat (mCount dc) < 2 ^ 30" "unat (dimY mtls) < 2 ^ 31"
  shows "mset (visited (rsdScriptInvokeForEach dc s ain aout sc sched)) = mset (resolved_domain mtls)"
proof -
  have d: "rsdScriptInvokeForEach dc s ain aout sc sched =
      parallel_launch dc WC_XY (dimY mtls) sched mtls"
    using par y by (simp add: dispatch_resolved [OF r])
  have ae: "axis_start WC_XY mtls \<le> axis_end WC_XY mtls"
    using resolve_launch_ranges [OF r] by (auto simp: axis_start_def axis_end_def)
  have e: "unat (axis_end WC_XY mtls) \<le> max 1 (unat (dimY mtls))"
    using resolve_launch_end_le(2) [OF r] by (simp add: axis_end_def)
  from parallel_launch_mset [OF r par(1) b(1) b(2) e ae, of sched] obtain sz where
    sz: "sz \<noteq> 0" "unat (axis_end WC_XY mtls) + unat sz \<le> 2 ^ 32"
    and ms: "mset (visited (parallel_launch dc WC_XY (dimY mtls) sched mtls)) =
      mset (map coords (concat (map (cb_body WC_XY (mtls\<lparr>mSliceSize := sz\<rparr>))
        (slices_from 0 sz (axis_start WC_XY mtls) (axis_end WC_XY mtls)))))"
    by blast
  from sz(2) have nw: "unat (yEnd (mtls\<lparr>mSliceSize := sz\<rparr>)) + unat sz \<le> 2 ^ 32"
    by (simp add: axis_end_def)
  from y_slices_coords [OF sz(1) nw] ms show ?thesis
    unfolding d by (simp add: axis_start_def axis_end_def resolved_domain_plane [OF r])
qed

text \<open>The parallel path that slices X visits every tuple of the clamped domain as many
  times as there are slices of the X range, under every schedule: \<^verbatim>\<open>wc_x\<close> loops from
  \<^verbatim>\<open>mtls->xStart\<close> to \<^verbatim>\<open>mtls->xEnd\<close> for every slice it claims.\<close>

lemma x_sliced_repeats:
  assumes r: "resolve_launch ain aout sc = Some mtls"
    and par: "1 < mCount dc" "isThreadable s" "\<not> mInForEach dc"
    and y: "\<not> 1 < dimY mtls"
    and b: "unat (mCount dc) < 2 ^ 30" "unat (dimX mtls) < 2 ^ 31"
    and s: "computeSliceSize (dimX mtls) (mCount dc) = Inr sz"
  shows "mset (visited (rsdScriptInvokeForEach dc s ain aout sc sched)) =
           mset (concat (replicate (length (slices_from 0 sz (xStart mtls) (xEnd mtls)))
             (resolved_domain mtls)))"
proof -
  have d: "rsdScriptInvokeForEach dc s ain aout sc sched =
      parallel_launch dc WC_X (dimX mtls) sched mtls"
    using par y by (simp add: dispatch_resolved [OF r])
  have ae: "axis_start WC_X mtls \<le> axis_end WC_X mtls"
    using resolve_launch_ranges [OF r] by (auto simp: axis_start_def axis_end_def)
  have e: "unat (axis_end WC_X mtls) \<le> max 1 (unat (dimX mtls))"
    using resolve_launch_end_le(1) [OF r] by (simp add: axis_end_def)
  from parallel_launch_mset [OF r par(1) b(1) b(2) e ae, of sched] s
  have ms: "mset (visited (parallel_launch dc WC_X (dimX mtls) sched mtls)) =
      mset (map coords (concat (map (cb_body WC_X (mtls\<lparr>mSliceSize := sz\<rparr>))
        (slices_from 0 sz (axis_start WC_X mtls) (axis_end WC_X mtls)))))"
    by auto
  have "resolved_domain mtls = map (\<lambda>x. (x, 0, 0, 0)) (u32_range (xStart mtls) (xEnd mtls))"
    by (simp add: resolved_domain_plane [OF r] flat_y_range [OF r y] domain_tuples_plane)
  with ms show ?thesis
    unfolding d by (simp add: x_slices_coords axis_start_def axis_end_def)
qed

lemma resolved_domain_buf_1d:
  "resolved_domain (mtls_zero\<lparr>dimX := 2, xEnd := 2, yEnd := 1, zEnd := 1, arrayEnd := 1,
            mSliceSize := 10, ptrOut := 4096, eStrideOut := 1, yStrideOut := 2\<rparr>) =
     [(0, 0, 0, 0), (1, 0, 0, 0)]"
  by (simp add: resolved_domain_def domain_tuples_def u32_range_def mtls_zero_def upt_rec)

lemma fields_buf_1d:
  "dimX (mtls_zero\<lparr>dimX := 2, xEnd := 2, yEnd := 1, zEnd := 1, arrayEnd := 1,
            mSliceSize := 10, ptrOut := 4096, eStrideOut := 1, yStrideOut := 2\<rparr>) = 2"
  "dimY (mtls_zero\<lparr>dimX := 2, xEnd := 2, yEnd := 1, zEnd := 1, arrayEnd := 1,
            mSliceSize := 10, ptrOut := 4096, eStrideOut := 1, yStrideOut := 2\<rparr>) = 0"
  "xStart (mtls_zero\<lparr>dimX := 2, xEnd := 2, yEnd := 1, zEnd := 1, arrayEnd := 1,
            mSliceSize := 10, ptrOut := 4096, eStrideOut := 1, yStrideOut := 2\<rparr>) = 0"
  "xEnd (mtls_zero\<lparr>dimX := 2, xEnd := 2, yEnd := 1, zEnd := 1, arrayEnd := 1,
            mSliceSize := 10, ptrOut := 4096, eStrideOut := 1, yStrideOut := 2\<rparr>) = 2"
  by (simp_all add: mtls_zero_def)

text \<open>C1. On a one-dimensional buffer of 2 elements with two workers and no clip, the
  clamped domain is the two tuples \<open>(0, 0, 0, 0)\<close> and \<open>(1, 0, 0, 0)\<close>. The dispatch goes
  parallel and slices X with the slice size 1, so two slices are claimed, and for each
  of them \<^verbatim>\<open>wc_x\<close> runs the whole X range: whatever the schedule of the workers, both
  tuples are visited twice. With the two workers taking turns the visits are in the
  order 0, 0, 1, 1. The sequential path (\<open>sequential_coverage\<close>) and the parallel path
  that slices Y (\<open>y_sliced_coverage\<close>) do visit every tuple of the domain once.\<close>

theorem x_sliced_visits_twice:
  "map_option resolved_domain (resolve_launch None (Some buf_1d) None) =
     Some [(0, 0, 0, 0), (1, 0, 0, 0)] \<and>
   (\<forall>sched. mset (visited (rsdScriptInvokeForEach \<lparr>mCount = 2, mInForEach = False\<rparr>
       \<lparr>isThreadable = True\<rparr> None (Some buf_1d) None sched)) =
     mset [(0, 0, 0, 0), (1, 0, 0, 0), (0, 0, 0, 0), (1, 0, 0, 0)]) \<and>
   visited (rsdScriptInvokeForEach \<lparr>mCount = 2, mInForEach = False\<rparr> \<lparr>isThreadable = True\<rparr>
     None (Some buf_1d) None [0, 1, 0, 1, 0, 1]) =
     [(0, 0, 0, 0), (0, 0, 0, 0), (1, 0, 0, 0), (1, 0, 0, 0)]"
proof (intro conjI allI)
  show "map_option resolved_domain (resolve_launch None (Some buf_1d) None) =
     Some [(0, 0, 0, 0), (1, 0, 0, 0)]"
    by (simp add: resolve_buf_1d resolved_domain_buf_1d)
next
  fix sched
  have s: "computeSliceSize 2 2 = Inr 1" by (simp add: computeSliceSize_def)
  have k: "slices_from 0 1 0 2 = [(0, 1), (1, 2)]"
    by (simp add: slices_from.simps claimNextSlice_def word_le_nat_alt)
  from x_sliced_repeats [OF resolve_buf_1d, of "\<lparr>mCount = 2, mInForEach = False\<rparr>"
      "\<lparr>isThreadable = True\<rparr>" 1 sched] s k
  show "mset (visited (rsdScriptInvokeForEach \<lparr>mCount = 2, mInForEach = False\<rparr>
       \<lparr>isThreadable = True\<rparr> None (Some buf_1d) None sched)) =
     mset [(0, 0, 0, 0), (1, 0, 0, 0), (0, 0, 0, 0), (1, 0, 0, 0)]"
    by (simp add: resolved_domain_buf_1d fields_buf_1d)
next
  show "visited (rsdScriptInvokeForEach \<lparr>mCount = 2, mInForEach = False\<rparr> \<lparr>isThreadable = True\<rparr>
     None (Some buf_1d) None [0, 1, 0, 1, 0, 1]) =
     [(0, 0, 0, 0), (0, 0, 0, 0), (1, 0, 0, 0), (1, 0, 0, 0)]"
    by code_simp
qed

subsection \<open>Addressing in the sequential path\<close>

text \<open>The pointers of the innermost loop: the invocation at \<open>x'\<close> gets the pointers
  \<open>x' - x\<close> element strides on from those of the first.\<close>

lemma x_loop_addresses:
  "map (\<lambda>c. (coords c, p_in c, p_out c)) (x_loop eIn eOut y z ar x xe pin pout) =
     map (\<lambda>x'. ((x', y, z, ar), pin + (unat x' - unat x) * unat eIn,
                 pout + (unat x' - unat x) * unat eOut)) (u32_range x xe)"
proof (cases "unat x \<le> unat xe")
  case False
  then show ?thesis by (simp add: x_loop_closed u32_range_def)
next
  case True
  have xe: "unat xe < 2 ^ 32" using unsigned_less [of xe] by simp
  have r: "[unat x..<unat xe] = map (\<lambda>k. k + unat x) [0..<unat xe - unat x]"
    using True by (simp add: map_add_upt)
  have u: "unat (x + of_nat k) = k + unat x" if "k < unat xe - unat x" for k
  proof -
    from that xe have "k + unat x < 2 ^ 32" by simp
    then show ?thesis by (simp add: unat_word_ariths unat_of_nat)
  qed
  have "map (\<lambda>x'. ((x', y, z, ar), pin + (unat x' - unat x) * unat eIn,
                 pout + (unat x' - unat x) * unat eOut)) (u32_range x xe) =
        map (\<lambda>k. ((x + of_nat k, y, z, ar), pin + k * unat eIn, pout + k * unat eOut))
          [0..<unat xe - unat x]"
    unfolding u32_range_def r by (simp add: comp_def u add.commute [of _ x])
  then show ?thesis by (simp add: x_loop_closed coords_def comp_def)
qed

text \<open>The pointers of the sequential path, for every launch structure: the invocation at
  \<open>(x, y, z, ar)\<close> gets the base pointer plus the element stride times the offset of
  the row, plus \<open>x - xStart\<close> element strides. The row stride is not used, and the
  start of the X range is not added to the pointer.\<close>

lemma sequential_addresses:
  "map (\<lambda>c. (coords c, p_in c, p_out c)) (sequential_loops m) =
     map (\<lambda>c. (c, ptrIn m + unat (eStrideIn m * seq_offset m c)
                    + (unat (fst c) - unat (xStart m)) * unat (eStrideIn m),
                  ptrOut m + unat (eStrideOut m * seq_offset m c)
                    + (unat (fst c) - unat (xStart m)) * unat (eStrideOut m)))
       (resolved_domain m)"
  by (simp add: sequential_loops_def for_u32_closed map_concat comp_def x_loop_addresses Let_def
      resolved_domain_def domain_tuples_nested seq_offset_def)

lemma resolve_buf_3x4_clip:
  "resolve_launch None (Some buf_3x4) (Some (clip_of 1 3 2 3)) =
     Some (mtls_zero\<lparr>dimX := 3, dimY := 4, xStart := 1, xEnd := 3, yStart := 2, yEnd := 3,
            zEnd := 1, arrayEnd := 1, mSliceSize := 10, ptrOut := 4096, eStrideOut := 4,
            yStrideOut := 16\<rparr>)"
  by (simp add: resolve_launch_def launch_dims_def clip_x_def clip_y_def floor_ends_def
      bind_buffers_def buf_3x4_def mtls_zero_def clip_of_def word_le_nat_alt)

text \<open>C9. The sequential path runs the loops in the order array, z, y, x and does not
  use the row stride, but it gives the kernel, for the first \<open>x\<close> of each row, the
  address of the row's element 0, and steps by the element stride from there
  (\<open>sequential_addresses\<close>). With a clip whose \<open>xStart\<close> is not 0 the pointer and the
  coordinate disagree: on a 3 x 4 buffer of 4-byte elements at 4096, clipped to
  \<open>x \<in> [1, 3)\<close>, \<open>y \<in> [2, 3)\<close>, the kernel is invoked at \<open>(1, 2)\<close> with the address 4120
  of element \<open>(0, 2)\<close>, while the flattened offset \<open>(2 * 3 + 1)\<close> times the element
  stride gives 4124.\<close>

theorem sequential_clipped_addressing:
  "invocations (rsdScriptInvokeForEach \<lparr>mCount = 1, mInForEach = False\<rparr> \<lparr>isThreadable = True\<rparr>
     None (Some buf_3x4) (Some (clip_of 1 3 2 3)) []) =
     [KCall 0 4120 1 2 0 0, KCall 0 4124 2 2 0 0] \<and>
   lod0_mallocPtr buf_3x4 + unat (getElementSizeBytes buf_3x4) * spec_flat_offset 3 4 0 (1, 2, 0, 0) = 4124"
proof -
  have "sequential_loops (mtls_zero\<lparr>dimX := 3, dimY := 4, xStart := 1, xEnd := 3, yStart := 2, yEnd := 3,
            zEnd := 1, arrayEnd := 1, mSliceSize := 10, ptrOut := 4096, eStrideOut := 4,
            yStrideOut := 16\<rparr>) = [KCall 0 4120 1 2 0 0, KCall 0 4124 2 2 0 0]"
    by (simp add: sequential_loops_def mtls_zero_def for_u32.simps x_loop.simps)
  then have "invocations (rsdScriptInvokeForEach \<lparr>mCount = 1, mInForEach = False\<rparr> \<lparr>isThreadable = True\<rparr>
     None (Some buf_3x4) (Some (clip_of 1 3 2 3)) []) =
     [KCall 0 4120 1 2 0 0, KCall 0 4124 2 2 0 0]"
    unfolding dispatch_resolved [OF resolve_buf_3x4_clip] by (simp add: invocations_def)
  moreover have "lod0_mallocPtr buf_3x4 + unat (getElementSizeBytes buf_3x4) * spec_flat_offset 3 4 0 (1, 2, 0, 0) = 4124"
    by (simp add: buf_3x4_def spec_flat_offset_def)
  ultimately show ?thesis by simp
qed

subsection \<open>Kernels that write their own output element\<close>

lemma wc_xy_body_rows:
  "wc_xy_body m s e =
     concat (map (\<lambda>y. x_loop (eStrideIn m) (eStrideOut m) y 0 0 (xStart m) (xEnd m)
         (ptrIn m + unat (yStrideIn m * y)) (ptrOut m + unat (yStrideOut m * y))) (u32_range s e))"
  by (simp add: wc_xy_body_def for_u32_closed)

lemma y_slices_calls:
  assumes "sz \<noteq> 0" and "unat (yEnd m) + unat sz \<le> 2 ^ 32"
  shows "concat (map (cb_body WC_XY m) (slices_from 0 sz (yStart m) (yEnd m))) =
           wc_xy_body m (yStart m) (yEnd m)"
proof -
  let ?row = "\<lambda>y. x_loop (eStrideIn m) (eStrideOut m) y 0 0 (xStart m) (xEnd m)
         (ptrIn m + unat (yStrideIn m * y)) (ptrOut m + unat (yStrideOut m * y))"
  let ?ss = "slices_from 0 sz (yStart m) (yEnd m)"
  have "concat (map (cb_body WC_XY m) ?ss) =
      concat (map (\<lambda>se. concat (map ?row (u32_range (fst se) (snd se)))) ?ss)"
    unfolding cb_body_def wc_xy_body_rows by simp
  also have "\<dots> = concat (map ?row (concat (map (\<lambda>se. u32_range (fst se) (snd se)) ?ss)))"
    by (rule concat_map_concat_map)
  also have "concat (map (\<lambda>se. u32_range (fst se) (snd se)) ?ss) =
      u32_range (yStart m) (yEnd m)"
  proof -
    have "slice_points ?ss = [unat (yStart m)..<unat (yEnd m)]"
      using slices_from_cover [OF assms, of 0 "yStart m"] by simp
    then show ?thesis by (simp only: slices_ranges u32_range_def [of "yStart m" "yEnd m"])
  qed
  finally show ?thesis by (simp add: wc_xy_body_rows)
qed

lemma for_u32_0_1: "for_u32 0 1 body = body 0"
  by (simp add: for_u32_closed u32_range_0_1)

text \<open>Where the rows are contiguous (the row stride is the element stride times
  \<open>dimX\<close>) and the Z and array ranges are \<open>[0, 1)\<close>, the sequential loops make the very
  invocations of \<^verbatim>\<open>wc_xy\<close> over the whole Y range.\<close>

lemma sequential_as_rows:
  assumes "zStart m = 0" "zEnd m = 1" "arrayStart m = 0" "arrayEnd m = 1"
    and "yStrideIn m = eStrideIn m * dimX m" and "yStrideOut m = eStrideOut m * dimX m"
  shows "sequential_loops m = wc_xy_body m (yStart m) (yEnd m)"
  using assms by (simp add: sequential_loops_def wc_xy_body_def for_u32_0_1 Let_def mult.assoc)

text \<open>On buffers with contiguous rows, the parallel path that slices Y makes the same
  kernel invocations, pointers included, as the sequential path, in some order.\<close>

lemma y_sliced_same_invocations:
  assumes r: "resolve_launch ain aout sc = Some mtls"
    and par: "1 < mCount dc" "isThreadable s" "\<not> mInForEach dc"
    and y: "1 < dimY mtls"
    and b: "unat (mCount dc) < 2 ^ 30" "unat (dimY mtls) < 2 ^ 31"
    and c: "yStrideIn mtls = eStrideIn mtls * dimX mtls" "yStrideOut mtls = eStrideOut mtls * dimX mtls"
  shows "mset (invocations (rsdScriptInvokeForEach dc s ain aout sc sched)) =
         mset (invocations (rsdScriptInvokeForEach (dc\<lparr>mCount := 1\<rparr>) s ain aout sc sched'))"
proof -
  have ae: "axis_start WC_XY mtls \<le> axis_end WC_XY mtls"
    using resolve_launch_ranges [OF r] by (auto simp: axis_start_def axis_end_def)
  have e: "unat (axis_end WC_XY mtls) \<le> max 1 (unat (dimY mtls))"
    using resolve_launch_end_le(2) [OF r] by (simp add: axis_end_def)
  from parallel_launch_calls [OF r par(1) b(1) b(2) e ae, of sched] obtain sz where
    sz: "sz \<noteq> 0" "unat (yEnd mtls) + unat sz \<le> 2 ^ 32"
      "mset (invocations (parallel_launch dc WC_XY (dimY mtls) sched mtls)) =
         mset (concat (map (cb_body WC_XY (mtls\<lparr>mSliceSize := sz\<rparr>))
           (slices_from 0 sz (yStart mtls) (yEnd mtls))))"
    by (auto simp: axis_start_def axis_end_def)
  let ?m = "mtls\<lparr>mSliceSize := sz\<rparr>"
  have "concat (map (cb_body WC_XY ?m) (slices_from 0 sz (yStart mtls) (yEnd mtls))) =
      wc_xy_body ?m (yStart ?m) (yEnd ?m)"
    using y_slices_calls [of sz ?m] sz(1,2) by simp
  also have "\<dots> = wc_xy_body mtls (yStart mtls) (yEnd mtls)"
    by (simp add: wc_xy_body_def)
  also have "\<dots> = sequential_loops mtls"
    using resolve_launch_ranges [OF r] c by (intro sequential_as_rows [symmetric]) simp_all
  finally have p: "mset (invocations (parallel_launch dc WC_XY (dimY mtls) sched mtls)) =
      mset (sequential_loops mtls)"
    using sz(3) by simp
  have "rsdScriptInvokeForEach dc s ain aout sc sched =
      parallel_launch dc WC_XY (dimY mtls) sched mtls"
    using par y by (simp add: dispatch_resolved [OF r])
  moreover have "invocations (rsdScriptInvokeForEach (dc\<lparr>mCount := 1\<rparr>) s ain aout sc sched') =
      sequential_loops mtls"
    by (simp add: dispatch_resolved [OF r] invocations_def)
  ultimately show ?thesis using p by simp
qed

text \<open>Invocations whose writes commute leave the same memory in every order.\<close>

lemma playback_permuted:
  assumes "\<And>c c'. c \<in> set cs \<Longrightarrow> c' \<in> set cs \<Longrightarrow>
             run_kernel f c \<circ> run_kernel f c' = run_kernel f c' \<circ> run_kernel f c"
    and "mset cs = mset cs'"
  shows "playback f cs mem = playback f cs' mem"
  unfolding playback_def using fold_multiset_equiv [OF assms] by simp

lemma playback_snoc: "playback f (cs @ [c]) mem = run_kernel f c (playback f cs mem)"
  by (simp add: playback_def)

text \<open>A byte that some invocation writes, and that all invocations writing there write
  alike, is what memory holds at the end.\<close>

lemma playback_written:
  assumes "c0 \<in> set cs" and "p_out c0 = a"
    and "\<And>c. c \<in> set cs \<Longrightarrow> \<exists>b. f (coords c) = [b]"
    and "\<And>c. c \<in> set cs \<Longrightarrow> p_out c = a \<Longrightarrow> f (coords c) = [v]"
  shows "playback f cs mem a = v"
  using assms
proof (induction cs rule: rev_induct)
  case Nil
  then show ?case by simp
next
  case (snoc c cs)
  show ?case
  proof (cases "p_out c = a")
    case True
    with snoc.prems(4) [of c] show ?thesis
      by (simp add: playback_snoc run_kernel_def)
  next
    case False
    with snoc.prems(1,2) have in_cs: "c0 \<in> set cs" by auto
    from snoc.prems(3) [of c] obtain b where b: "f (coords c) = [b]" by auto
    have "playback f cs mem a = v"
      using in_cs snoc.prems(2) snoc.prems(3,4) by (intro snoc.IH) auto
    with False b show ?thesis by (simp add: playback_snoc run_kernel_def)
  qed
qed

text \<open>The kernel invocations of the four-worker dispatch on the two-element buffer,
  under every schedule.\<close>

lemma x_sliced_calls_buf_1d:
  "mset (invocations (rsdScriptInvokeForEach \<lparr>mCount = 4, mInForEach = False\<rparr>
      \<lparr>isThreadable = True\<rparr> None (Some buf_1d) None sched)) =
   mset [KCall 0 4096 0 0 0 0, KCall 0 4097 1 0 0 0, KCall 0 4097 0 0 0 0, KCall 0 4098 1 0 0 0]"
proof -
  let ?m = "mtls_zero\<lparr>dimX := 2, xEnd := 2, yEnd := 1, zEnd := 1, arrayEnd := 1,
            mSliceSize := 10, ptrOut := 4096, eStrideOut := 1, yStrideOut := 2\<rparr>"
  let ?dc = "\<lparr>mCount = 4, mInForEach = False\<rparr>"
  have d: "rsdScriptInvokeForEach ?dc \<lparr>isThreadable = True\<rparr> None (Some buf_1d) None sched =
      parallel_launch ?dc WC_X 2 sched ?m"
    by (simp add: dispatch_resolved [OF resolve_buf_1d] fields_buf_1d word_less_nat_alt)
  have s: "computeSliceSize 2 (mCount ?dc) = Inr 1" by (simp add: computeSliceSize_def)
  have k: "slices_from 0 1 0 2 = [(0, 1), (1, 2)]"
    by (simp add: slices_from.simps claimNextSlice_def word_le_nat_alt)
  have ax: "axis_start WC_X ?m = 0" "axis_end WC_X ?m = 2"
    by (simp_all add: axis_start_def axis_end_def fields_buf_1d)
  have a: "mset (invocations (parallel_launch ?dc WC_X 2 sched ?m)) =
      mset (concat (map (cb_body WC_X (?m\<lparr>mSliceSize := 1\<rparr>)) (slices_from 0 1 0 2)))"
    using parallel_launch_calls [OF resolve_buf_1d, of ?dc 2 WC_X sched] s
    by (auto simp: ax)
  have b: "concat (map (cb_body WC_X (?m\<lparr>mSliceSize := 1\<rparr>)) [(0, 1), (1, 2)]) =
      [KCall 0 4096 0 0 0 0, KCall 0 4097 1 0 0 0, KCall 0 4097 0 0 0 0, KCall 0 4098 1 0 0 0]"
    by (simp add: cb_body_def wc_x_body_def mtls_zero_def x_loop.simps)
  from a show ?thesis unfolding d k b .
qed

text \<open>C2. The two-element buffer of one-byte elements at 4096 and the kernel that
  writes \<open>x + 7\<close>, on memory that is zero everywhere. Run sequentially (one worker),
  the buffer holds 7, 8 and the byte after it is untouched. Run in parallel with four
  workers (slice size 1), the second slice writes its \<open>x = 0\<close> element at 4097 and its
  \<open>x = 1\<close> element at 4098, past the end of the buffer: with the slices run one after
  the other the buffer holds 7, 7, and under every schedule the byte after the buffer
  holds 8. On the path that slices Y the invocations are those of the sequential path
  (\<open>y_sliced_same_invocations\<close>).\<close>

theorem x_sliced_output_differs:
  "map (playback kernel_x_plus_7
          (invocations (rsdScriptInvokeForEach \<lparr>mCount = 1, mInForEach = False\<rparr>
             \<lparr>isThreadable = True\<rparr> None (Some buf_1d) None []))
          (\<lambda>a. 0)) [4096, 4097, 4098] = [7, 8, 0] \<and>
   map (playback kernel_x_plus_7
          (invocations (rsdScriptInvokeForEach \<lparr>mCount = 4, mInForEach = False\<rparr>
             \<lparr>isThreadable = True\<rparr> None (Some buf_1d) None []))
          (\<lambda>a. 0)) [4096, 4097, 4098] = [7, 7, 8] \<and>
   (\<forall>sched. playback kernel_x_plus_7
          (invocations (rsdScriptInvokeForEach \<lparr>mCount = 4, mInForEach = False\<rparr>
             \<lparr>isThreadable = True\<rparr> None (Some buf_1d) None sched))
          (\<lambda>a. 0) 4098 = 8)"
proof (intro conjI allI)
  have s: "invocations (rsdScriptInvokeForEach \<lparr>mCount = 1, mInForEach = False\<rparr>
      \<lparr>isThreadable = True\<rparr> None (Some buf_1d) None []) =
    [KCall 0 4096 0 0 0 0, KCall 0 4097 1 0 0 0]"
    by code_simp
  show "map (playback kernel_x_plus_7
          (invocations (rsdScriptInvokeForEach \<lparr>mCount = 1, mInForEach = False\<rparr>
             \<lparr>isThreadable = True\<rparr> None (Some buf_1d) None []))
          (\<lambda>a. 0)) [4096, 4097, 4098] = [7, 8, 0]"
    unfolding s by (simp add: playback_def run_kernel_def kernel_x_plus_7_def coords_def)
  have p: "invocations (rsdScriptInvokeForEach \<lparr>mCount = 4, mInForEach = False\<rparr>
      \<lparr>isThreadable = True\<rparr> None (Some buf_1d) None []) =
    [KCall 0 4096 0 0 0 0, KCall 0 4097 1 0 0 0, KCall 0 4097 0 0 0 0, KCall 0 4098 1 0 0 0]"
    by code_simp
  show "map (playback kernel_x_plus_7
          (invocations (rsdScriptInvokeForEach \<lparr>mCount = 4, mInForEach = False\<rparr>
             \<lparr>isThreadable = True\<rparr> None (Some buf_1d) None []))
          (\<lambda>a. 0)) [4096, 4097, 4098] = [7, 7, 8]"
    unfolding p by (simp add: playback_def run_kernel_def kernel_x_plus_7_def coords_def)
next
  fix sched
  let ?cs = "invocations (rsdScriptInvokeForEach \<lparr>mCount = 4, mInForEach = False\<rparr>
             \<lparr>isThreadable = True\<rparr> None (Some buf_1d) None sched)"
  have "set_mset (mset ?cs) = set_mset (mset [KCall 0 4096 0 0 0 0, KCall 0 4097 1 0 0 0,
      KCall 0 4097 0 0 0 0, KCall 0 4098 1 0 0 0])"
    by (simp only: x_sliced_calls_buf_1d)
  then have cs: "set ?cs = {KCall 0 4096 0 0 0 0, KCall 0 4097 1 0 0 0,
      KCall 0 4097 0 0 0 0, KCall 0 4098 1 0 0 0}"
    by simp
  show "playback kernel_x_plus_7 ?cs (\<lambda>a. 0) 4098 = 8"
  proof (rule playback_written [where ?c0.0 = "KCall 0 4098 1 0 0 0"])
    show "KCall 0 4098 1 0 0 0 \<in> set ?cs" unfolding cs by simp
    show "p_out (KCall 0 4098 1 0 0 0) = 4098" by simp
    show "\<exists>b. kernel_x_plus_7 (coords c) = [b]" for c by (simp add: kernel_x_plus_7_def)
    show "kernel_x_plus_7 (coords c) = [8]" if "c \<in> set ?cs" "p_out c = 4098" for c
      using that unfolding cs by (auto simp: kernel_x_plus_7_def coords_def)
  qed
qed

lemma fields_buf_2x64:
  "dimX (mtls_zero\<lparr>dimX := 2, dimY := 64, xEnd := 2, yEnd := 64, zEnd := 1, arrayEnd := 1,
            mSliceSize := 10, ptrOut := 4096, eStrideOut := 1, yStrideOut := 2\<rparr>) = 2"
  "eStrideIn (mtls_zero\<lparr>dimX := 2, dimY := 64, xEnd := 2, yEnd := 64, zEnd := 1, arrayEnd := 1,
            mSliceSize := 10, ptrOut := 4096, eStrideOut := 1, yStrideOut := 2\<rparr>) = 0"
  "yStrideIn (mtls_zero\<lparr>dimX := 2, dimY := 64, xEnd := 2, yEnd := 64, zEnd := 1, arrayEnd := 1,
            mSliceSize := 10, ptrOut := 4096, eStrideOut := 1, yStrideOut := 2\<rparr>) = 0"
  "eStrideOut (mtls_zero\<lparr>dimX := 2, dimY := 64, xEnd := 2, yEnd := 64, zEnd := 1, arrayEnd := 1,
            mSliceSize := 10, ptrOut := 4096, eStrideOut := 1, yStrideOut := 2\<rparr>) = 1"
  "yStrideOut (mtls_zero\<lparr>dimX := 2, dimY := 64, xEnd := 2, yEnd := 64, zEnd := 1, arrayEnd := 1,
            mSliceSize := 10, ptrOut := 4096, eStrideOut := 1, yStrideOut := 2\<rparr>) = 2"
  by (simp_all add: mtls_zero_def)

text \<open>On the 2 x 64 buffer with two workers, which slices Y: under every schedule the
  parallel dispatch makes the invocations of the sequential one, which visits 128
  tuples, none of them twice.\<close>

lemma y_sliced_example:
  "mset (invocations (rsdScriptInvokeForEach \<lparr>mCount = 2, mInForEach = False\<rparr>
       \<lparr>isThreadable = True\<rparr> None (Some buf_2x64) None sched)) =
   mset (invocations (rsdScriptInvokeForEach \<lparr>mCount = 1, mInForEach = False\<rparr>
       \<lparr>isThreadable = True\<rparr> None (Some buf_2x64) None []))"
  "mset (visited (rsdScriptInvokeForEach \<lparr>mCount = 2, mInForEach = False\<rparr>
       \<lparr>isThreadable = True\<rparr> None (Some buf_2x64) None sched)) =
   mset (visited (rsdScriptInvokeForEach \<lparr>mCount = 1, mInForEach = False\<rparr>
       \<lparr>isThreadable = True\<rparr> None (Some buf_2x64) None []))"
  "distinct (visited (rsdScriptInvokeForEach \<lparr>mCount = 1, mInForEach = False\<rparr>
       \<lparr>isThreadable = True\<rparr> None (Some buf_2x64) None []))"
  "length (visited (rsdScriptInvokeForEach \<lparr>mCount = 1, mInForEach = False\<rparr>
       \<lparr>isThreadable = True\<rparr> None (Some buf_2x64) None [])) = 128"
proof -
  let ?m = "mtls_zero\<lparr>dimX := 2, dimY := 64, xEnd := 2, yEnd := 64, zEnd := 1, arrayEnd := 1,
            mSliceSize := 10, ptrOut := 4096, eStrideOut := 1, yStrideOut := 2\<rparr>"
  let ?par = "rsdScriptInvokeForEach \<lparr>mCount = 2, mInForEach = False\<rparr>
       \<lparr>isThreadable = True\<rparr> None (Some buf_2x64) None sched"
  let ?seq = "rsdScriptInvokeForEach \<lparr>mCount = 1, mInForEach = False\<rparr>
       \<lparr>isThreadable = True\<rparr> None (Some buf_2x64) None []"
  from y_sliced_same_invocations [OF resolve_buf_2x64,
      of "\<lparr>mCount = 2, mInForEach = False\<rparr>" "\<lparr>isThreadable = True\<rparr>" sched "[]"]
  show "mset (invocations ?par) = mset (invocations ?seq)"
    by (simp add: dimY_buf_2x64 fields_buf_2x64 word_less_nat_alt)
  have s: "visited ?seq = resolved_domain ?m"
    by (rule sequential_coverage [OF resolve_buf_2x64]) simp
  from y_sliced_coverage [OF resolve_buf_2x64,
      of "\<lparr>mCount = 2, mInForEach = False\<rparr>" "\<lparr>isThreadable = True\<rparr>" sched]
  show "mset (visited ?par) = mset (visited ?seq)"
    unfolding s by (simp add: dimY_buf_2x64 word_less_nat_alt)
  show "distinct (visited ?seq)" unfolding s by (rule resolved_domain_distinct)
  show "length (visited ?seq) = 128"
    unfolding s by (simp add: resolved_domain_def domain_tuples_def u32_range_def mtls_zero_def)
qed

end
